theory Spec2Isabelle
  imports Complex_Main "HOL-Library.While_Combinator" "HOL-Library.AList"
    "HOL-Library.Product_Lexorder"
begin

section \<open>Cells, grids and the link relation\<close>

text \<open>
  Exceptions of the Python source that the modelled functions can raise.
\<close>

datatype error = AssertionError | KeyError | IndexError | ValueError
  | ZeroDivisionError | AttributeError

text \<open>
  A \<^verbatim>\<open>Cell\<close> is identified by its position: \<^verbatim>\<open>__eq__\<close> and \<^verbatim>\<open>__hash__\<close> use the row and
  the column only, and a grid holds one cell per position. The geographic neighbours are
  fixed by \<^verbatim>\<open>Grid.connect_cells\<close> from the dimensions of the grid, so they are functions of
  the grid; the \<^verbatim>\<open>links\<close> dictionary of every cell (keys in insertion order, every value
  \<^verbatim>\<open>True\<close>) is the mutable part, stored per cell as the list of its keys.
\<close>

type_synonym cell = "nat \<times> nat"

record grid =
  num_rows :: nat
  num_columns :: nat
  links :: "cell \<Rightarrow> cell list"

text \<open>
  \<^verbatim>\<open>Grid(num_rows, num_columns)\<close> asserts that both are positive and creates the cells,
  every one with an empty \<^verbatim>\<open>links\<close> dictionary.
\<close>

definition unlinked :: "nat \<Rightarrow> nat \<Rightarrow> grid" where
  "unlinked nr nc = \<lparr>num_rows = nr, num_columns = nc, links = (\<lambda>_. [])\<rparr>"

definition Grid :: "int \<Rightarrow> int \<Rightarrow> error + grid" where
  "Grid nr nc =
     (if \<not> nr > 0 then Inl AssertionError
      else if \<not> nc > 0 then Inl AssertionError
      else Inr (unlinked (nat nr) (nat nc)))"

definition north :: "grid \<Rightarrow> cell \<Rightarrow> cell option" where
  "north g c = (if fst c > 0 then Some (fst c - 1, snd c) else None)"

definition south :: "grid \<Rightarrow> cell \<Rightarrow> cell option" where
  "south g c = (if fst c + 1 < num_rows g then Some (fst c + 1, snd c) else None)"

definition west :: "grid \<Rightarrow> cell \<Rightarrow> cell option" where
  "west g c = (if snd c > 0 then Some (fst c, snd c - 1) else None)"

definition east :: "grid \<Rightarrow> cell \<Rightarrow> cell option" where
  "east g c = (if snd c + 1 < num_columns g then Some (fst c, snd c + 1) else None)"

definition opt_list :: "'a option \<Rightarrow> 'a list" where
  "opt_list x = (case x of None \<Rightarrow> [] | Some y \<Rightarrow> [y])"

definition neighbors :: "grid \<Rightarrow> cell \<Rightarrow> cell list" where
  "neighbors g c =
     opt_list (north g c) @ opt_list (south g c) @ opt_list (east g c) @ opt_list (west g c)"

definition cell_at :: "grid \<Rightarrow> int \<Rightarrow> int \<Rightarrow> cell option" where
  "cell_at g row column =
     (if 0 \<le> row \<and> row < int (num_rows g) \<and> 0 \<le> column \<and> column < int (num_columns g)
      then Some (nat row, nat column) else None)"

definition each_row :: "grid \<Rightarrow> cell list list" where
  "each_row g = map (\<lambda>r. map (\<lambda>c. (r, c)) [0..<num_columns g]) [0..<num_rows g]"

definition each_cell :: "grid \<Rightarrow> cell list" where
  "each_cell g = concat (each_row g)"

definition size_grid :: "grid \<Rightarrow> nat" where
  "size_grid g = num_columns g * num_rows g"

subsection \<open>Linking and unlinking\<close>

text \<open>
  \<^verbatim>\<open>self.links[cell] = True\<close>: a key that is present keeps its place, a new key goes to
  the end.
\<close>

definition add_key :: "cell list \<Rightarrow> cell \<Rightarrow> cell list" where
  "add_key ks k = (if k \<in> set ks then ks else ks @ [k])"

definition set_link :: "grid \<Rightarrow> cell \<Rightarrow> cell \<Rightarrow> grid" where
  "set_link g a b = g\<lparr>links := (links g)(a := add_key (links g a) b)\<rparr>"

text \<open>
  \<^verbatim>\<open>a.link(b, bidirectional)\<close>: the recursive call is made with
  \<^verbatim>\<open>bidirectional=False\<close>, so the recursion has depth two.
\<close>

definition link :: "grid \<Rightarrow> cell \<Rightarrow> cell \<Rightarrow> bool \<Rightarrow> grid" where
  "link g a b bidirectional =
     (let g1 = set_link g a b in if bidirectional then set_link g1 b a else g1)"

text \<open>
  \<^verbatim>\<open>del self.links[cell]\<close> raises \<^verbatim>\<open>KeyError\<close> when the key is absent. An exception
  leaves the heap as it is at that moment, so the result is the final grid together with the
  exception, if any.
\<close>

definition del_link :: "grid \<Rightarrow> cell \<Rightarrow> cell \<Rightarrow> error option \<times> grid" where
  "del_link g a b =
     (if b \<in> set (links g a)
      then (None, g\<lparr>links := (links g)(a := remove1 b (links g a))\<rparr>)
      else (Some KeyError, g))"

definition unlink :: "grid \<Rightarrow> cell \<Rightarrow> cell \<Rightarrow> bool \<Rightarrow> error option \<times> grid" where
  "unlink g a b bidirectional =
     (case del_link g a b of
        (Some e, g1) \<Rightarrow> (Some e, g1)
      | (None, g1) \<Rightarrow> if bidirectional then del_link g1 b a else (None, g1))"

definition is_linked :: "grid \<Rightarrow> cell \<Rightarrow> cell \<Rightarrow> bool" where
  "is_linked g a b \<longleftrightarrow> b \<in> set (links g a)"

definition all_links :: "grid \<Rightarrow> cell \<Rightarrow> cell list" where
  "all_links g c = links g c"

definition link_count :: "grid \<Rightarrow> cell \<Rightarrow> nat" where
  "link_count g c = length (links g c)"

text \<open>A script of bidirectional operations, stopped by the first exception.\<close>

datatype link_op = Link cell cell | Unlink cell cell

fun run_ops :: "grid \<Rightarrow> link_op list \<Rightarrow> error option \<times> grid" where
  "run_ops g [] = (None, g)"
| "run_ops g (Link a b # ops) = run_ops (link g a b True) ops"
| "run_ops g (Unlink a b # ops) =
     (case unlink g a b True of
        (Some e, g1) \<Rightarrow> (Some e, g1)
      | (None, g1) \<Rightarrow> run_ops g1 ops)"

definition symmetric :: "grid \<Rightarrow> bool" where
  "symmetric g \<longleftrightarrow> (\<forall>a b. is_linked g a b = is_linked g b a)"

definition links_distinct :: "grid \<Rightarrow> bool" where
  "links_distinct g \<longleftrightarrow> (\<forall>a. distinct (links g a))"

section \<open>Markups\<close>

text \<open>
  A Python dictionary keeps its keys in insertion order: assigning to a present key keeps
  the key's place, a new key is appended. This is \<^const>\<open>AList.update\<close> on an association
  list; \<^const>\<open>map_of\<close> is the lookup.
\<close>

record 'v markup =
  mgrid :: grid
  marks :: "(cell \<times> 'v) list"
  default_value :: 'v

definition Markup :: "grid \<Rightarrow> 'v \<Rightarrow> 'v markup" where
  "Markup g d = \<lparr>mgrid = g, marks = [], default_value = d\<rparr>"

definition setitem :: "'v markup \<Rightarrow> cell \<Rightarrow> 'v \<Rightarrow> 'v markup" where
  "setitem m cell v = m\<lparr>marks := AList.update cell v (marks m)\<rparr>"

definition getitem :: "'v markup \<Rightarrow> cell \<Rightarrow> 'v" where
  "getitem m cell = (case map_of (marks m) cell of Some v \<Rightarrow> v | None \<Rightarrow> default_value m)"

definition set_item_at :: "'v markup \<Rightarrow> int \<Rightarrow> int \<Rightarrow> 'v \<Rightarrow> error + 'v markup" where
  "set_item_at m row column v =
     (if \<not> (row \<ge> 0 \<and> row < int (num_rows (mgrid m))) then Inl AssertionError
      else if \<not> (column \<ge> 0 \<and> column < int (num_columns (mgrid m))) then Inl AssertionError
      else case cell_at (mgrid m) row column of
             Some cell \<Rightarrow> Inr (m\<lparr>marks := AList.update cell v (marks m)\<rparr>)
           | None \<Rightarrow> Inl IndexError)"

text \<open>
  \<^verbatim>\<open>get_item_at\<close> returns \<^verbatim>\<open>self.marks.get(cell)\<close>: the value, or Python's \<^verbatim>\<open>None\<close>
  (here \<^const>\<open>None\<close>) for a cell that is not marked.
\<close>

definition get_item_at :: "'v markup \<Rightarrow> int \<Rightarrow> int \<Rightarrow> error + 'v option" where
  "get_item_at m row column =
     (if \<not> (row \<ge> 0 \<and> row < int (num_rows (mgrid m))) then Inl AssertionError
      else if \<not> (column \<ge> 0 \<and> column < int (num_columns (mgrid m))) then Inl AssertionError
      else case cell_at (mgrid m) row column of
             Some cell \<Rightarrow> Inr (map_of (marks m) cell)
           | None \<Rightarrow> Inl IndexError)"

text \<open>
  Python's \<^verbatim>\<open>max(iterable, key=f)\<close> and \<^verbatim>\<open>min(iterable, key=f)\<close>: \<^verbatim>\<open>ValueError\<close> on an
  empty iterable; otherwise the first item is kept until a strictly greater (strictly
  smaller) one is met.
\<close>

fun max_by :: "('a \<Rightarrow> 'b::linorder) \<Rightarrow> 'a list \<Rightarrow> error + 'a" where
  "max_by key [] = Inl ValueError"
| "max_by key (x # xs) = Inr (foldl (\<lambda>best y. if key best < key y then y else best) x xs)"

fun min_by :: "('a \<Rightarrow> 'b::linorder) \<Rightarrow> 'a list \<Rightarrow> error + 'a" where
  "min_by key [] = Inl ValueError"
| "min_by key (x # xs) = Inr (foldl (\<lambda>best y. if key y < key best then y else best) x xs)"

definition Markup_max :: "('v::linorder) markup \<Rightarrow> error + cell" where
  "Markup_max m = max_by (getitem m) (map fst (marks m))"

definition Markup_min :: "('v::linorder) markup \<Rightarrow> error + cell" where
  "Markup_min m = min_by (getitem m) (map fst (marks m))"

subsection \<open>Statements that can raise\<close>

text \<open>
  A \<^verbatim>\<open>for\<close> loop whose body may raise: the loop stops at the first exception, with the
  state reached so far.
\<close>

fun for_each :: "('s \<Rightarrow> 'a \<Rightarrow> error option \<times> 's) \<Rightarrow> 's \<Rightarrow> 'a list \<Rightarrow> error option \<times> 's" where
  "for_each f s [] = (None, s)"
| "for_each f s (x # xs) =
     (case f s x of (Some e, s1) \<Rightarrow> (Some e, s1) | (None, s1) \<Rightarrow> for_each f s1 xs)"

definition py_last :: "'a list \<Rightarrow> error + 'a" where
  "py_last xs = (if xs = [] then Inl IndexError else Inr (last xs))"

definition list_remove :: "'a list \<Rightarrow> 'a \<Rightarrow> error + 'a list" where
  "list_remove xs x = (if x \<in> set xs then Inr (remove1 x xs) else Inl ValueError)"

subsection \<open>DijkstraMarkup\<close>

text \<open>
  The frontier is a \<^verbatim>\<open>heapq\<close> of pairs \<^verbatim>\<open>(dist, cell)\<close>. \<^verbatim>\<open>heappop\<close> returns the least pair
  in Python's tuple order, which with \<^verbatim>\<open>Cell.__lt__\<close> is the lexicographic order on
  (distance, row, column); two pairs that compare equal are the same pair, so the frontier
  is modelled as the list of its entries and \<^verbatim>\<open>heappop\<close> as taking out the least one.
\<close>

type_synonym frontier = "(int \<times> cell) list"

definition heappush :: "frontier \<Rightarrow> int \<times> cell \<Rightarrow> frontier" where
  "heappush h x = x # h"

fun heappop :: "frontier \<Rightarrow> error + (int \<times> cell) \<times> frontier" where
  "heappop [] = Inl IndexError"
| "heappop (x # xs) = (let m = fold min xs x in Inr (m, remove1 m (x # xs)))"

definition dijkstra_relax ::
  "int \<Rightarrow> int markup \<times> frontier \<Rightarrow> cell \<Rightarrow> int markup \<times> frontier" where
  "dijkstra_relax dst s neighbor =
     (case s of (m, fr) \<Rightarrow>
        if map_of (marks m) neighbor = None \<or> dst + 1 < getitem m neighbor
        then (setitem m neighbor (dst + 1), heappush fr (dst + 1, neighbor))
        else (m, fr))"

definition dijkstra_step ::
  "grid \<Rightarrow> error option \<times> int markup \<times> frontier \<Rightarrow> error option \<times> int markup \<times> frontier" where
  "dijkstra_step g s =
     (case s of (e, m, fr) \<Rightarrow>
        (case heappop fr of
           Inl e1 \<Rightarrow> (Some e1, m, fr)
         | Inr ((dst, cell), fr1) \<Rightarrow>
             if dst > getitem m cell then (None, m, fr1)
             else (case foldl (dijkstra_relax dst) (m, fr1) (all_links g cell) of
                     (m2, fr2) \<Rightarrow> (None, m2, fr2))))"

definition dijkstra_cond :: "error option \<times> int markup \<times> frontier \<Rightarrow> bool" where
  "dijkstra_cond s = (case s of (e, m, fr) \<Rightarrow> e = None \<and> length fr > 0)"

definition DijkstraMarkup :: "grid \<Rightarrow> cell \<Rightarrow> int \<Rightarrow> (error + int markup) option" where
  "DijkstraMarkup g root_cell d =
     (case while_option dijkstra_cond (dijkstra_step g)
             (None, setitem (Markup g d) root_cell 0, [(0, root_cell)]) of
        None \<Rightarrow> None
      | Some (Some e, m, fr) \<Rightarrow> Some (Inl e)
      | Some (None, m, fr) \<Rightarrow> Some (Inr m))"

subsection \<open>ShortestPathMarkup\<close>

text \<open>
  The constructor first runs \<^verbatim>\<open>DijkstraMarkup.__init__(grid, start_cell)\<close> (default 0),
  walks back from the goal, and at the end replaces \<^verbatim>\<open>self.marks\<close> by the dictionary of
  markers. The default stays the integer 0, so a lookup gives either a marker or, for a
  key that is absent, that integer.
\<close>

record 'v path_markup =
  path_marks :: "(cell \<times> 'v) list"
  path_default :: int

definition path_getitem :: "'v path_markup \<Rightarrow> cell \<Rightarrow> int + 'v" where
  "path_getitem pm cell =
     (case map_of (path_marks pm) cell of Some v \<Rightarrow> Inr v | None \<Rightarrow> Inl (path_default pm))"

text \<open>
  \<^verbatim>\<open>min(current.all_links(), key=lambda cell: self.marks[cell])\<close>: the keys are computed
  item by item (\<^verbatim>\<open>KeyError\<close> at the first unmarked cell), an empty list gives
  \<^verbatim>\<open>ValueError\<close>.
\<close>

fun lookup_keys :: "(cell \<times> int) list \<Rightarrow> cell list \<Rightarrow> error + (int \<times> cell) list" where
  "lookup_keys m [] = Inr []"
| "lookup_keys m (c # cs) =
     (case map_of m c of
        None \<Rightarrow> Inl KeyError
      | Some v \<Rightarrow> (case lookup_keys m cs of Inl e \<Rightarrow> Inl e | Inr r \<Rightarrow> Inr ((v, c) # r)))"

definition min_link :: "(cell \<times> int) list \<Rightarrow> cell list \<Rightarrow> error + cell" where
  "min_link m ls =
     (case lookup_keys m ls of
        Inl e \<Rightarrow> Inl e
      | Inr kcs \<Rightarrow> (case min_by fst kcs of Inl e \<Rightarrow> Inl e | Inr kc \<Rightarrow> Inr (snd kc)))"

definition path_step ::
  "grid \<Rightarrow> (cell \<times> int) list \<Rightarrow> 'v \<Rightarrow> error option \<times> (cell \<times> 'v) list \<times> cell \<Rightarrow>
     error option \<times> (cell \<times> 'v) list \<times> cell" where
  "path_step g m path_marker s =
     (case s of (e, path, current) \<Rightarrow>
        (let path1 = AList.update current path_marker path in
         case min_link m (all_links g current) of
           Inl e1 \<Rightarrow> (Some e1, path1, current)
         | Inr c \<Rightarrow> (None, path1, c)))"

definition path_cond :: "cell \<Rightarrow> error option \<times> (cell \<times> 'v) list \<times> cell \<Rightarrow> bool" where
  "path_cond start_cell s = (case s of (e, path, current) \<Rightarrow> e = None \<and> current \<noteq> start_cell)"

definition ShortestPathMarkup ::
  "grid \<Rightarrow> cell \<Rightarrow> cell \<Rightarrow> 'v \<Rightarrow> 'v \<Rightarrow> 'v \<Rightarrow> (error + 'v path_markup) option" where
  "ShortestPathMarkup g start_cell goal_cell path_marker non_path_marker end_marker =
     (case DijkstraMarkup g start_cell 0 of
        None \<Rightarrow> None
      | Some (Inl e) \<Rightarrow> Some (Inl e)
      | Some (Inr dm) \<Rightarrow>
          (let path0 = foldl (\<lambda>path cell. AList.update cell non_path_marker path) []
                         (each_cell g)
           in case while_option (path_cond start_cell) (path_step g (marks dm) path_marker)
                     (None, path0, goal_cell) of
                None \<Rightarrow> None
              | Some (Some e, path, current) \<Rightarrow> Some (Inl e)
              | Some (None, path, current) \<Rightarrow>
                  Some (Inr \<lparr>path_marks =
                               AList.update goal_cell end_marker
                                 (AList.update start_cell end_marker path),
                             path_default = default_value dm\<rparr>)))"

subsection \<open>ColorizedMarkup\<close>

text \<open>
  The values are RGB triplets. \<^verbatim>\<open>assert channel in 'RGB'\<close> is Python's substring test, so
  it accepts exactly the seven contiguous substrings of \<^verbatim>\<open>'RGB'\<close>. The inherited default
  \<^verbatim>\<open>' '\<close> is not read by any method modelled here and is left out of the record.
\<close>

record colorized_markup =
  cgrid :: grid
  cmarks :: "(cell \<times> int list) list"
  channel :: string

definition ColorizedMarkup :: "grid \<Rightarrow> string \<Rightarrow> error + colorized_markup" where
  "ColorizedMarkup g ch =
     (if ch \<in> set ['''', ''R'', ''G'', ''B'', ''RG'', ''GB'', ''RGB'']
      then Inr \<lparr>cgrid = g, cmarks = [], channel = ch\<rparr>
      else Inl AssertionError)"

text \<open>
  Python's \<^verbatim>\<open>round\<close> rounds a half to the even neighbour. The quotient
  \<^verbatim>\<open>(max_value - cell_value) / max_value\<close> is taken in the reals: the floating-point
  rounding of the division and of the product is idealised.
\<close>

definition py_round :: "real \<Rightarrow> int" where
  "py_round x =
     (let f = \<lfloor>x\<rfloor>; d = x - of_int f
      in if d < 1 / 2 then f else if d > 1 / 2 then f + 1 else if even f then f else f + 1)"

definition colorize_cell ::
  "int \<Rightarrow> int markup \<Rightarrow> colorized_markup \<Rightarrow> cell \<Rightarrow> error option \<times> colorized_markup" where
  "colorize_cell max_value markup cm c =
     (let cell_value = getitem markup c in
      if max_value = 0 then (Some ZeroDivisionError, cm)
      else
        (let intensity = of_int (max_value - cell_value) / (of_int max_value :: real);
             dark = py_round (255 * intensity);
             bright = py_round (127 * intensity) + 128
         in if channel cm = ''R''
            then (None, cm\<lparr>cmarks := AList.update c [bright, dark, dark] (cmarks cm)\<rparr>)
            else if channel cm = ''G''
            then (None, cm\<lparr>cmarks := AList.update c [dark, bright, dark] (cmarks cm)\<rparr>)
            else (None, cm\<lparr>cmarks := AList.update c [dark, dark, bright] (cmarks cm)\<rparr>)))"

definition intensity_colorize ::
  "colorized_markup \<Rightarrow> int markup \<Rightarrow> error option \<times> colorized_markup" where
  "intensity_colorize cm markup =
     (case Markup_max markup of
        Inl e \<Rightarrow> (Some e, cm)
      | Inr mx \<Rightarrow>
          (let max_value = getitem markup mx
           in for_each (colorize_cell max_value markup) cm (each_cell (cgrid cm))))"




section \<open>The generation algorithms\<close>

text \<open>
  The process-wide random source is a sequence of natural numbers, read at an index that
  every draw advances: \<^verbatim>\<open>random.choice(xs)\<close> takes \<open>xs ! (r mod length xs)\<close> (and raises
  \<^verbatim>\<open>IndexError\<close> on an empty list), \<^verbatim>\<open>random.randint(0, n - 1)\<close> takes \<open>r mod n\<close> (and
  raises \<^verbatim>\<open>ValueError\<close> on an empty range), and \<^verbatim>\<open>random.random()\<close> is a 53-bit integer
  divided by \<open>2 ^ 53\<close>. Every outcome of a draw is the outcome under some sequence.
\<close>

type_synonym rand = "nat \<Rightarrow> nat"

definition choice :: "rand \<Rightarrow> nat \<Rightarrow> 'a list \<Rightarrow> error + 'a" where
  "choice rnd i xs = (if xs = [] then Inl IndexError else Inr (xs ! (rnd i mod length xs)))"

definition randint0 :: "rand \<Rightarrow> nat \<Rightarrow> nat \<Rightarrow> error + nat" where
  "randint0 rnd i n = (if n = 0 then Inl ValueError else Inr (rnd i mod n))"

definition random_unit :: "rand \<Rightarrow> nat \<Rightarrow> real" where
  "random_unit rnd i = real (rnd i mod 2 ^ 53) / 2 ^ 53"

definition random_cell :: "rand \<Rightarrow> nat \<Rightarrow> grid \<Rightarrow> error + cell \<times> nat" where
  "random_cell rnd i g =
     (case randint0 rnd i (num_rows g) of
        Inl e \<Rightarrow> Inl e
      | Inr row \<Rightarrow>
          (case randint0 rnd (i + 1) (num_columns g) of
             Inl e \<Rightarrow> Inl e
           | Inr col \<Rightarrow> Inr ((row, col), i + 2)))"

text \<open>The unlinked grid of one row and two columns, for concrete runs.\<close>

definition two_cells :: grid where
  "two_cells = unlinked 1 2"


text \<open>The sequence of draws that are all 0, for concrete runs.\<close>

definition zero_rand :: rand where
  "zero_rand = (\<lambda>_. 0)"

subsection \<open>binary\_tree\<close>

definition binary_tree_cell :: "rand \<Rightarrow> grid \<times> nat \<Rightarrow> cell \<Rightarrow> error option \<times> grid \<times> nat" where
  "binary_tree_cell rnd s cell =
     (case s of (g, i) \<Rightarrow>
        (let nbs = opt_list (north g cell) @ opt_list (east g cell)
         in if nbs \<noteq> []
            then (case choice rnd i nbs of
                    Inl e \<Rightarrow> (Some e, g, i)
                  | Inr n \<Rightarrow> (None, link g cell n True, i + 1))
            else (None, g, i)))"

definition binary_tree :: "rand \<Rightarrow> grid \<Rightarrow> error option \<times> grid" where
  "binary_tree rnd g =
     (case for_each (binary_tree_cell rnd) (g, 0) (each_cell g) of (e, g1, i) \<Rightarrow> (e, g1))"

subsection \<open>sidewinder\<close>

text \<open>
  In \<^verbatim>\<open>(cell.row == 0 or random.random() > odds) and cell.east\<close> the draw is made only
  when the row is not 0. Linking to a \<^verbatim>\<open>cell.north\<close> that is \<^verbatim>\<open>None\<close> fails the
  \<^verbatim>\<open>isinstance\<close> assertion of \<^verbatim>\<open>link\<close>.
\<close>

definition sidewinder_cell ::
  "rand \<Rightarrow> real \<Rightarrow> grid \<times> nat \<times> cell list \<Rightarrow> cell \<Rightarrow> error option \<times> grid \<times> nat \<times> cell list" where
  "sidewinder_cell rnd odds s cell =
     (case s of (g, i, run0) \<Rightarrow>
        (let run = run0 @ [cell] in
         if fst cell = 0 then
           (case east g cell of
              Some e \<Rightarrow> (None, link g cell e True, i, run)
            | None \<Rightarrow> (None, g, i, run))
         else if random_unit rnd i > odds \<and> east g cell \<noteq> None then
           (case east g cell of
              Some e \<Rightarrow> (None, link g cell e True, i + 1, run)
            | None \<Rightarrow> (None, g, i + 1, run))
         else
           (case choice rnd (i + 1) run of
              Inl e \<Rightarrow> (Some e, g, i + 1, run)
            | Inr c \<Rightarrow>
                (case north g c of
                   None \<Rightarrow> (Some AssertionError, g, i + 2, run)
                 | Some n \<Rightarrow> (None, link g c n True, i + 2, [])))))"

definition sidewinder_row ::
  "rand \<Rightarrow> real \<Rightarrow> grid \<times> nat \<Rightarrow> cell list \<Rightarrow> error option \<times> grid \<times> nat" where
  "sidewinder_row rnd odds s row =
     (case s of (g, i) \<Rightarrow>
        (case for_each (sidewinder_cell rnd odds) (g, i, []) row of
           (e, g1, i1, run) \<Rightarrow> (e, g1, i1)))"

definition sidewinder :: "rand \<Rightarrow> grid \<Rightarrow> real \<Rightarrow> error option \<times> grid" where
  "sidewinder rnd g odds =
     (if \<not> odds \<ge> 0 then (Some AssertionError, g)
      else if \<not> odds < 1 then (Some AssertionError, g)
      else (case for_each (sidewinder_row rnd odds) (g, 0) (each_row g) of
              (e, g1, i) \<Rightarrow> (e, g1)))"

subsection \<open>aldous\_broder\<close>

text \<open>
  The random walk may go on forever, so the loop is a \<^const>\<open>while_option\<close>: the value
  \<^const>\<open>None\<close> is the run that does not return. The state of the loop carries the
  exception, if one was raised.
\<close>

definition aldous_broder_step ::
  "rand \<Rightarrow> error option \<times> grid \<times> nat \<times> cell \<times> cell list \<Rightarrow>
     error option \<times> grid \<times> nat \<times> cell \<times> cell list" where
  "aldous_broder_step rnd s =
     (case s of (e, g, i, current, visited) \<Rightarrow>
        (case choice rnd i (neighbors g current) of
           Inl e1 \<Rightarrow> (Some e1, g, i, current, visited)
         | Inr neighbor \<Rightarrow>
             if neighbor \<notin> set visited
             then (None, link g neighbor current True, i + 1, neighbor, visited @ [neighbor])
             else (None, g, i + 1, neighbor, visited)))"

definition aldous_broder_cond :: "error option \<times> grid \<times> nat \<times> cell \<times> cell list \<Rightarrow> bool" where
  "aldous_broder_cond s =
     (case s of (e, g, i, current, visited) \<Rightarrow> e = None \<and> length visited < size_grid g)"

definition aldous_broder :: "rand \<Rightarrow> grid \<Rightarrow> (error option \<times> grid) option" where
  "aldous_broder rnd g =
     (case random_cell rnd 0 g of
        Inl e \<Rightarrow> Some (Some e, g)
      | Inr (current, i) \<Rightarrow>
          (case while_option aldous_broder_cond (aldous_broder_step rnd)
                  (None, g, i, current, [current]) of
             None \<Rightarrow> None
           | Some (e, g1, i1, current1, visited1) \<Rightarrow> Some (e, g1)))"

subsection \<open>wilson\<close>

text \<open>
  \<^verbatim>\<open>while path[-1] != next: path.pop()\<close>. It stops at once when \<^verbatim>\<open>next\<close> is the last
  cell, and raises \<^verbatim>\<open>IndexError\<close> when the path runs empty.
\<close>

function erase_loop :: "cell list \<Rightarrow> cell \<Rightarrow> error + cell list" where
  "erase_loop path nxt =
     (if path = [] then Inl IndexError
      else if last path \<noteq> nxt then erase_loop (butlast path) nxt
      else Inr path)"
  by pat_completeness auto
termination
  by (relation "measure (\<lambda>(path, nxt). length path)") auto

definition wilson_walk_step ::
  "rand \<Rightarrow> grid \<Rightarrow> error option \<times> nat \<times> cell list \<Rightarrow> error option \<times> nat \<times> cell list" where
  "wilson_walk_step rnd g s =
     (case s of (e, i, path) \<Rightarrow>
        (case py_last path of
           Inl e1 \<Rightarrow> (Some e1, i, path)
         | Inr l \<Rightarrow>
             (case choice rnd i (neighbors g l) of
                Inl e1 \<Rightarrow> (Some e1, i, path)
              | Inr nxt \<Rightarrow>
                  if nxt \<in> set path
                  then (case erase_loop path nxt of
                          Inl e1 \<Rightarrow> (Some e1, i + 1, [])
                        | Inr path1 \<Rightarrow> (None, i + 1, path1))
                  else (None, i + 1, path @ [nxt]))))"

definition wilson_walk_cond :: "cell list \<Rightarrow> error option \<times> nat \<times> cell list \<Rightarrow> bool" where
  "wilson_walk_cond unvisited s =
     (case s of (e, i, path) \<Rightarrow> e = None \<and> (path = [] \<or> last path \<in> set unvisited))"

definition wilson_link :: "cell list \<Rightarrow> grid \<times> cell list \<Rightarrow> nat \<Rightarrow> error option \<times> grid \<times> cell list" where
  "wilson_link path s k =
     (case s of (g, unvisited) \<Rightarrow>
        (let g1 = link g (path ! k) (path ! (k + 1)) True
         in case list_remove unvisited (path ! k) of
              Inl e \<Rightarrow> (Some e, g1, unvisited)
            | Inr u1 \<Rightarrow> (None, g1, u1)))"

text \<open>
  One round of the outer loop, and the outer loop. The inner walk may not return, and then
  the outer loop does not either.
\<close>

partial_function (option) wilson_loop ::
  "rand \<Rightarrow> grid \<times> nat \<times> cell list \<Rightarrow> (error option \<times> grid \<times> nat \<times> cell list) option" where
  "wilson_loop rnd s =
     (case s of (g, i, unvisited) \<Rightarrow>
        if \<not> length unvisited > 0 then Some (None, g, i, unvisited)
        else
          (case choice rnd i unvisited of
             Inl e \<Rightarrow> Some (Some e, g, i, unvisited)
           | Inr start \<Rightarrow>
               (case while_option (wilson_walk_cond unvisited) (wilson_walk_step rnd g)
                       (None, i + 1, [start]) of
                  None \<Rightarrow> None
                | Some (Some e, i1, path) \<Rightarrow> Some (Some e, g, i1, unvisited)
                | Some (None, i1, path) \<Rightarrow>
                    (case for_each (wilson_link path) (g, unvisited) [0..<length path - 1] of
                       (Some e, g1, u1) \<Rightarrow> Some (Some e, g1, i1, u1)
                     | (None, g1, u1) \<Rightarrow> wilson_loop rnd (g1, i1, u1)))))"

definition wilson :: "rand \<Rightarrow> grid \<Rightarrow> (error option \<times> grid) option" where
  "wilson rnd g =
     (case random_cell rnd 0 g of
        Inl e \<Rightarrow> Some (Some e, g)
      | Inr (c, i) \<Rightarrow>
          (case list_remove (each_cell g) c of
             Inl e \<Rightarrow> Some (Some e, g)
           | Inr unvisited \<Rightarrow>
               (case wilson_loop rnd (g, i, unvisited) of
                  None \<Rightarrow> None
                | Some (e, g1, i1, u1) \<Rightarrow> Some (e, g1))))"

subsection \<open>hybrid\<close>

text \<open>
  The second loop of \<^verbatim>\<open>hybrid\<close> is, line by line, the loop of \<^verbatim>\<open>wilson\<close>.
  \<^verbatim>\<open>len(unvisited) > grid.size() * threshold\<close> compares an integer with a float, here a
  real.
\<close>

definition hybrid_step ::
  "rand \<Rightarrow> error option \<times> grid \<times> nat \<times> cell \<times> cell list \<Rightarrow>
     error option \<times> grid \<times> nat \<times> cell \<times> cell list" where
  "hybrid_step rnd s =
     (case s of (e, g, i, current, unvisited) \<Rightarrow>
        (case choice rnd i (neighbors g current) of
           Inl e1 \<Rightarrow> (Some e1, g, i, current, unvisited)
         | Inr neighbor \<Rightarrow>
             if neighbor \<in> set unvisited
             then (case list_remove unvisited neighbor of
                     Inl e1 \<Rightarrow> (Some e1, link g neighbor current True, i + 1, current, unvisited)
                   | Inr u1 \<Rightarrow> (None, link g neighbor current True, i + 1, neighbor, u1))
             else (None, g, i + 1, neighbor, unvisited)))"

definition hybrid_cond ::
  "real \<Rightarrow> error option \<times> grid \<times> nat \<times> cell \<times> cell list \<Rightarrow> bool" where
  "hybrid_cond threshold s =
     (case s of (e, g, i, current, unvisited) \<Rightarrow>
        e = None \<and> real (length unvisited) > real (size_grid g) * threshold)"

definition hybrid :: "rand \<Rightarrow> grid \<Rightarrow> real \<Rightarrow> (error option \<times> grid) option" where
  "hybrid rnd g threshold =
     (case random_cell rnd 0 g of
        Inl e \<Rightarrow> Some (Some e, g)
      | Inr (current, i) \<Rightarrow>
          (case list_remove (each_cell g) current of
             Inl e \<Rightarrow> Some (Some e, g)
           | Inr unvisited \<Rightarrow>
               (case while_option (hybrid_cond threshold) (hybrid_step rnd)
                       (None, g, i, current, unvisited) of
                  None \<Rightarrow> None
                | Some (Some e, g1, i1, current1, u1) \<Rightarrow> Some (Some e, g1)
                | Some (None, g1, i1, current1, u1) \<Rightarrow>
                    (case wilson_loop rnd (g1, i1, u1) of
                       None \<Rightarrow> None
                     | Some (e, g2, i2, u2) \<Rightarrow> Some (e, g2)))))"

subsection \<open>recursive\_backtracker\<close>

definition recursive_backtracker_step ::
  "rand \<Rightarrow> error option \<times> grid \<times> nat \<times> cell list \<times> cell list \<Rightarrow>
     error option \<times> grid \<times> nat \<times> cell list \<times> cell list" where
  "recursive_backtracker_step rnd s =
     (case s of (e, g, i, visited, stack) \<Rightarrow>
        (case py_last stack of
           Inl e1 \<Rightarrow> (Some e1, g, i, visited, stack)
         | Inr current \<Rightarrow>
             (let unvisited_neighbors = filter (\<lambda>n. n \<notin> set visited) (neighbors g current)
              in if unvisited_neighbors \<noteq> []
                 then (case choice rnd i unvisited_neighbors of
                         Inl e1 \<Rightarrow> (Some e1, g, i, visited, stack)
                       | Inr neighbor \<Rightarrow>
                           (None, link g current neighbor True, i + 1,
                            visited @ [neighbor], stack @ [neighbor]))
                 else (None, g, i, visited, butlast stack))))"

definition recursive_backtracker_cond ::
  "error option \<times> grid \<times> nat \<times> cell list \<times> cell list \<Rightarrow> bool" where
  "recursive_backtracker_cond s =
     (case s of (e, g, i, visited, stack) \<Rightarrow> e = None \<and> stack \<noteq> [])"

definition recursive_backtracker ::
  "rand \<Rightarrow> grid \<Rightarrow> cell option \<Rightarrow> (error option \<times> grid) option" where
  "recursive_backtracker rnd g start_cell =
     (case (case start_cell of
              None \<Rightarrow> random_cell rnd 0 g
            | Some c \<Rightarrow> Inr (c, 0)) of
        Inl e \<Rightarrow> Some (Some e, g)
      | Inr (start, i) \<Rightarrow>
          (case while_option recursive_backtracker_cond (recursive_backtracker_step rnd)
                  (None, g, i, [start], [start]) of
             None \<Rightarrow> None
           | Some (e, g1, i1, visited1, stack1) \<Rightarrow> Some (e, g1)))"

section \<open>Notions used to state and prove the claims\<close>

subsection \<open>Walks along links\<close>

text \<open>
  \<open>walk g a k b\<close>: \<open>b\<close> is reached from \<open>a\<close> in \<open>k\<close> steps, each step going from a cell to
  a cell in its \<^verbatim>\<open>links\<close>. \<open>shortest g a k b\<close>: \<open>k\<close> is the least such number of steps.
\<close>

inductive walk :: "grid \<Rightarrow> cell \<Rightarrow> nat \<Rightarrow> cell \<Rightarrow> bool" for g :: grid and a :: cell where
  walk_refl: "walk g a 0 a"
| walk_step: "walk g a k c \<Longrightarrow> is_linked g c b \<Longrightarrow> walk g a (Suc k) b"

definition shortest :: "grid \<Rightarrow> cell \<Rightarrow> nat \<Rightarrow> cell \<Rightarrow> bool" where
  "shortest g a k b \<longleftrightarrow> walk g a k b \<and> (\<forall>j. walk g a j b \<longrightarrow> k \<le> j)"

definition links_in_grid :: "grid \<Rightarrow> bool" where
  "links_in_grid g \<longleftrightarrow>
     (\<forall>a b. is_linked g a b \<longrightarrow> a \<in> set (each_cell g) \<and> b \<in> set (each_cell g))"

subsection \<open>The invariant of the loop of DijkstraMarkup\<close>

text \<open>
  A marked cell is \<open>settled\<close> when every cell in its links is marked with at most one more.
  The invariant: the root is marked 0; every mark is the length of a walk from the root;
  every frontier entry is for a marked cell whose mark is not above the entry; and every
  marked cell is settled or has its current mark in the frontier.
\<close>

definition settled :: "grid \<Rightarrow> (cell \<rightharpoonup> int) \<Rightarrow> cell \<Rightarrow> int \<Rightarrow> bool" where
  "settled g M c d \<longleftrightarrow> (\<forall>n\<in>set (links g c). \<exists>d1. M n = Some d1 \<and> d1 \<le> d + 1)"

definition marks_sound :: "grid \<Rightarrow> cell \<Rightarrow> (cell \<rightharpoonup> int) \<Rightarrow> bool" where
  "marks_sound g rt M \<longleftrightarrow>
     M rt = Some 0 \<and> (\<forall>c d. M c = Some d \<longrightarrow> 0 \<le> d \<and> walk g rt (nat d) c)"

definition frontier_ok :: "(cell \<rightharpoonup> int) \<Rightarrow> frontier \<Rightarrow> bool" where
  "frontier_ok M fr \<longleftrightarrow> (\<forall>x\<in>set fr. \<exists>d1. M (snd x) = Some d1 \<and> d1 \<le> fst x)"

definition dijkstra_inv ::
  "grid \<Rightarrow> cell \<Rightarrow> error option \<times> int markup \<times> frontier \<Rightarrow> bool" where
  "dijkstra_inv g rt s =
     (case s of (e, m, fr) \<Rightarrow>
        e = None \<and> marks_sound g rt (map_of (marks m)) \<and>
        frontier_ok (map_of (marks m)) fr \<and>
        (\<forall>c d. map_of (marks m) c = Some d \<longrightarrow>
           (d, c) \<in> set fr \<or> settled g (map_of (marks m)) c d))"

text \<open>The same while the links of \<open>cell\<close>, popped with distance \<open>dst\<close>, are relaxed.\<close>

definition relax_inv ::
  "grid \<Rightarrow> cell \<Rightarrow> cell \<Rightarrow> int \<Rightarrow> int markup \<times> frontier \<Rightarrow> bool" where
  "relax_inv g rt cell dst s =
     (case s of (m, fr) \<Rightarrow>
        marks_sound g rt (map_of (marks m)) \<and>
        map_of (marks m) cell = Some dst \<and>
        frontier_ok (map_of (marks m)) fr \<and>
        (\<forall>c d. c \<noteq> cell \<longrightarrow> map_of (marks m) c = Some d \<longrightarrow>
           (d, c) \<in> set fr \<or> settled g (map_of (marks m)) c d))"

definition marks_decrease :: "(cell \<rightharpoonup> int) \<Rightarrow> (cell \<rightharpoonup> int) \<Rightarrow> bool" where
  "marks_decrease M M1 \<longleftrightarrow> (\<forall>c d. M c = Some d \<longrightarrow> (\<exists>d1. M1 c = Some d1 \<and> d1 \<le> d))"

text \<open>
  The variant: the number of unmarked cells among the root and the cells of the grid, then
  the sum of the marks, then the length of the frontier, in lexicographic order.
\<close>

definition vertices :: "grid \<Rightarrow> cell \<Rightarrow> cell set" where
  "vertices g rt = insert rt (set (each_cell g))"

definition unmarked_count :: "grid \<Rightarrow> cell \<Rightarrow> (cell \<rightharpoonup> int) \<Rightarrow> nat" where
  "unmarked_count g rt M = card {c \<in> vertices g rt. M c = None}"

definition mark_sum :: "grid \<Rightarrow> cell \<Rightarrow> (cell \<rightharpoonup> int) \<Rightarrow> nat" where
  "mark_sum g rt M = (\<Sum>c\<in>vertices g rt. case M c of None \<Rightarrow> 0 | Some d \<Rightarrow> nat d)"

definition marks_variant :: "grid \<Rightarrow> cell \<Rightarrow> (cell \<rightharpoonup> int) \<Rightarrow> nat \<times> nat" where
  "marks_variant g rt M = (unmarked_count g rt M, mark_sum g rt M)"

definition dijkstra_variant ::
  "grid \<Rightarrow> cell \<Rightarrow> error option \<times> int markup \<times> frontier \<Rightarrow> (nat \<times> nat) \<times> nat" where
  "dijkstra_variant g rt s =
     (case s of (e, m, fr) \<Rightarrow> (marks_variant g rt (map_of (marks m)), length fr))"

subsection \<open>The grid of one row linked in a line\<close>

text \<open>
  \<open>line_grid g n\<close>: \<open>g\<close> has one row of \<open>n\<close> cells and every cell is linked, in both
  directions, with its east and its west neighbour and with nothing else. \<open>line3\<close> is
  such a grid of three cells, built with \<^verbatim>\<open>link\<close>.
\<close>

definition line_grid :: "grid \<Rightarrow> nat \<Rightarrow> bool" where
  "line_grid g n \<longleftrightarrow>
     num_rows g = 1 \<and> num_columns g = n \<and>
     (\<forall>a b. is_linked g a b \<longleftrightarrow>
        fst a = 0 \<and> fst b = 0 \<and> snd a < n \<and> snd b < n \<and>
        (snd b = snd a + 1 \<or> snd a = snd b + 1))"

definition line3 :: grid where
  "line3 = link (link (unlinked 1 3) (0, 0) (0, 1) True) (0, 1) (0, 2) True"


subsection \<open>Chains, connected grids and spanning trees\<close>

text \<open>
  \<open>linked_chain g cs\<close>: every cell of the list is linked to the next one.
  \<open>chain_marks M d cs\<close>: the cells of the list are marked \<open>d\<close>, \<open>d + 1\<close>, ... in this order.
  \<open>connected g\<close>: every cell of the grid is reached from every other by a walk along links.
  \<open>undirected_links g\<close>: the links as unordered pairs of cells. \<open>spanning_tree g\<close>: the
  links are symmetric and between cells of the grid, the grid is connected and has exactly
  \<^verbatim>\<open>size() - 1\<close> undirected links.
\<close>

fun linked_chain :: "grid \<Rightarrow> cell list \<Rightarrow> bool" where
  "linked_chain g [] = True"
| "linked_chain g [c] = True"
| "linked_chain g (c # c1 # cs) = (is_linked g c c1 \<and> linked_chain g (c1 # cs))"

fun chain_marks :: "(cell \<rightharpoonup> int) \<Rightarrow> int \<Rightarrow> cell list \<Rightarrow> bool" where
  "chain_marks M d [] = True"
| "chain_marks M d (c # cs) = (M c = Some d \<and> chain_marks M (d + 1) cs)"

definition connected :: "grid \<Rightarrow> bool" where
  "connected g \<longleftrightarrow> (\<forall>a\<in>set (each_cell g). \<forall>b\<in>set (each_cell g). \<exists>k. walk g a k b)"

definition undirected_links :: "grid \<Rightarrow> cell set set" where
  "undirected_links g = {{a, b} | a b. is_linked g a b}"

definition spanning_tree :: "grid \<Rightarrow> bool" where
  "spanning_tree g \<longleftrightarrow>
     symmetric g \<and> links_in_grid g \<and> connected g \<and>
     card (undirected_links g) = size_grid g - 1"

text \<open>
  The invariant of the backward walk of \<^verbatim>\<open>ShortestPathMarkup\<close>: no exception so far, and
  there is a chain of linked cells from the current cell to the goal along which the marks
  go up by one; the cells of the chain after the current one carry the path marker, every
  other key of the dictionary is as it was at the start.
\<close>

definition path_inv ::
  "grid \<Rightarrow> (cell \<rightharpoonup> int) \<Rightarrow> cell \<Rightarrow> 'v \<Rightarrow> (cell \<rightharpoonup> 'v) \<Rightarrow>
     error option \<times> (cell \<times> 'v) list \<times> cell \<Rightarrow> bool" where
  "path_inv g M goal_cell path_marker P0 s =
     (case s of (e, path, current) \<Rightarrow>
        e = None \<and>
        (\<exists>ch d. ch \<noteq> [] \<and> hd ch = current \<and> last ch = goal_cell \<and> linked_chain g ch \<and>
           chain_marks M d ch \<and>
           map_of path = (\<lambda>c. if c \<in> set (tl ch) then Some path_marker else P0 c)))"

definition path_variant ::
  "(cell \<rightharpoonup> int) \<Rightarrow> error option \<times> (cell \<times> 'v) list \<times> cell \<Rightarrow> nat" where
  "path_variant M s =
     (case s of (e, path, current) \<Rightarrow> (case M current of None \<Rightarrow> 0 | Some d \<Rightarrow> nat d))"

text \<open>The three-cell line with path marking from (0,0) to (0,2), for concrete runs.\<close>

text \<open>\<open>distances g a M\<close>: the marked cells are those reached from \<open>a\<close>, each with its least number of steps.\<close>

definition distances :: "grid \<Rightarrow> cell \<Rightarrow> (cell \<rightharpoonup> int) \<Rightarrow> bool" where
  "distances g a M \<longleftrightarrow> (\<forall>c k. M c = Some k \<longleftrightarrow> 0 \<le> k \<and> shortest g a (nat k) c)"

section \<open>Basic facts about links\<close>

lemma links_set_link:
  "links (set_link g a b) c = (if c = a then add_key (links g a) b else links g c)"
  by (simp add: set_link_def)

lemma set_add_key: "set (add_key ks k) = insert k (set ks)"
  by (auto simp: add_key_def)

lemma distinct_add_key: "distinct ks \<Longrightarrow> distinct (add_key ks k)"
  by (simp add: add_key_def)

lemma is_linked_set_link:
  "is_linked (set_link g a b) c d \<longleftrightarrow> is_linked g c d \<or> (c = a \<and> d = b)"
  by (auto simp: is_linked_def links_set_link set_add_key)

lemma is_linked_link:
  "is_linked (link g a b True) c d \<longleftrightarrow>
     is_linked g c d \<or> (c = a \<and> d = b) \<or> (c = b \<and> d = a)"
  by (auto simp: link_def Let_def is_linked_set_link)

lemma symmetric_link: "symmetric g \<Longrightarrow> symmetric (link g a b True)"
  unfolding symmetric_def is_linked_link by blast

lemma links_distinctD: "links_distinct g \<Longrightarrow> distinct (links g a)"
  unfolding links_distinct_def by blast

lemma links_distinctI: "(\<And>a. distinct (links g a)) \<Longrightarrow> links_distinct g"
  unfolding links_distinct_def by blast

lemma links_distinct_set_link: "links_distinct g \<Longrightarrow> links_distinct (set_link g a b)"
  by (rule links_distinctI) (simp add: links_set_link distinct_add_key links_distinctD)

lemma links_distinct_link: "links_distinct g \<Longrightarrow> links_distinct (link g a b bd)"
  by (simp add: link_def Let_def links_distinct_set_link)

lemma links_distinct_del_link: "links_distinct g \<Longrightarrow> links_distinct (snd (del_link g a b))"
  by (rule links_distinctI) (simp add: del_link_def links_distinctD)

lemma links_distinct_unlink: "links_distinct g \<Longrightarrow> links_distinct (snd (unlink g a b bd))"
  using links_distinct_del_link [of g a b]
    links_distinct_del_link [of "snd (del_link g a b)" b a]
  by (auto simp: unlink_def split: prod.splits option.splits)

lemma is_linked_del_link:
  "distinct (links g a) \<Longrightarrow> is_linked (snd (del_link g a b)) c d \<longleftrightarrow>
     is_linked g c d \<and> \<not> (c = a \<and> d = b)"
  by (auto simp: is_linked_def del_link_def)

lemma symmetric_unlink:
  assumes "symmetric g" and "links_distinct g"
  shows "symmetric (snd (unlink g a b True))"
proof (cases "b \<in> set (links g a)")
  case False
  then show ?thesis using assms(1) by (simp add: unlink_def del_link_def)
next
  case True
  let ?g1 = "snd (del_link g a b)"
  have d1: "del_link g a b = (None, ?g1)"
    using True by (simp add: del_link_def)
  have l1: "is_linked ?g1 c d \<longleftrightarrow> is_linked g c d \<and> \<not> (c = a \<and> d = b)" for c d
    using is_linked_del_link [OF links_distinctD [OF assms(2)]] by blast
  have dist1: "distinct (links ?g1 b)"
    using links_distinct_del_link [OF assms(2), of a b] by (rule links_distinctD)
  have l2: "is_linked (snd (del_link ?g1 b a)) c d \<longleftrightarrow>
      is_linked g c d \<and> \<not> (c = a \<and> d = b) \<and> \<not> (c = b \<and> d = a)" for c d
    using is_linked_del_link [OF dist1, of a c d] l1 by auto
  have "snd (unlink g a b True) = snd (del_link ?g1 b a)"
    unfolding unlink_def by (subst d1) simp
  then show ?thesis
    using assms(1) l2 unfolding symmetric_def by metis
qed

lemma run_ops_invariant:
  "symmetric g \<Longrightarrow> links_distinct g \<Longrightarrow>
     symmetric (snd (run_ops g ops)) \<and> links_distinct (snd (run_ops g ops))"
proof (induction ops arbitrary: g)
  case Nil
  then show ?case by simp
next
  case (Cons x ops)
  show ?case
  proof (cases x)
    case (Link a b)
    then show ?thesis
      using Cons.IH [of "link g a b True"] Cons.prems
      by (simp add: symmetric_link links_distinct_link)
  next
    case (Unlink a b)
    have s: "symmetric (snd (unlink g a b True))"
      and d: "links_distinct (snd (unlink g a b True))"
      using Cons.prems by (simp_all add: symmetric_unlink links_distinct_unlink)
    show ?thesis
      using Unlink s d Cons.IH [of "snd (unlink g a b True)"]
      by (auto split: prod.splits option.splits)
  qed
qed

lemma upt_3: "[0..<3] = [0, 1, 2]"
  by (simp add: upt_rec)

lemma unlinked_simps:
  "num_rows (unlinked nr nc) = nr" "num_columns (unlinked nr nc) = nc"
  "links (unlinked nr nc) c = []"
  by (simp_all add: unlinked_def)

lemma dims_set_link:
  "num_rows (set_link g a b) = num_rows g" "num_columns (set_link g a b) = num_columns g"
  by (simp_all add: set_link_def)

lemma dims_link:
  "num_rows (link g a b bd) = num_rows g" "num_columns (link g a b bd) = num_columns g"
  by (simp_all add: link_def Let_def dims_set_link)

lemma each_cell_3x3:
  "each_cell (unlinked 3 3) =
     [(0,0), (0,1), (0,2), (1,0), (1,1), (1,2), (2,0), (2,1), (2,2)]"
  by (simp add: each_cell_def each_row_def unlinked_simps upt_3)

lemma choice2: "choice rnd i [a, b] = Inr (if rnd i mod 2 = 0 then a else b)"
proof (cases "rnd i mod 2 = 0")
  case True
  then have "rnd i mod Suc (Suc 0) = 0" by (simp add: numeral_2_eq_2)
  then show ?thesis using True by (simp add: choice_def)
next
  case False
  then have "rnd i mod Suc (Suc 0) = Suc 0" by (simp add: numeral_2_eq_2) presburger
  then show ?thesis using False by (simp add: choice_def)
qed

lemma choice1: "choice rnd i [a] = Inr a"
  by (simp add: choice_def)


lemma Grid_unlinked: "0 < nr \<Longrightarrow> 0 < nc \<Longrightarrow> Grid (int nr) (int nc) = Inr (unlinked nr nc)"
  by (simp add: Grid_def)

lemma GridD: "Grid nr nc = Inr g \<Longrightarrow> g = unlinked (nat nr) (nat nc) \<and> 0 < nr \<and> 0 < nc"
  by (auto simp: Grid_def split: if_splits)

lemma symmetric_unlinked: "symmetric (unlinked nr nc)"
  by (simp add: symmetric_def is_linked_def unlinked_def)

lemma links_distinct_unlinked: "links_distinct (unlinked nr nc)"
  by (rule links_distinctI) (simp add: unlinked_def)

lemma for_each_no_error:
  "(\<And>s x. x \<in> set xs \<Longrightarrow> fst (f s x) = None) \<Longrightarrow> fst (for_each f s xs) = None"
proof (induction xs arbitrary: s)
  case Nil
  then show ?case by simp
next
  case (Cons x xs)
  have "fst (f s x) = None" using Cons.prems by simp
  then obtain s1 where s1: "f s x = (None, s1)" by (cases "f s x") auto
  show ?case using s1 Cons by simp
qed

lemma foldl_max_by:
  fixes key :: "'a \<Rightarrow> 'b::linorder"
  defines "f \<equiv> (\<lambda>best y. if key best < key y then y else best)"
  shows "foldl f b ys \<in> insert b (set ys) \<and> key b \<le> key (foldl f b ys) \<and>
         (\<forall>x\<in>set ys. key x \<le> key (foldl f b ys))"
proof (induction ys arbitrary: b)
  case Nil
  then show ?case by simp
next
  case (Cons y ys)
  show ?case
  proof (cases "key b < key y")
    case True
    then have "foldl f b (y # ys) = foldl f y ys" by (simp add: f_def)
    then show ?thesis using Cons [of y] True by auto
  next
    case False
    then have "foldl f b (y # ys) = foldl f b ys" by (simp add: f_def)
    then show ?thesis using Cons [of b] False by auto
  qed
qed

lemma max_by_in:
  assumes "max_by key xs = Inr m"
  shows "m \<in> set xs \<and> (\<forall>x\<in>set xs. key x \<le> key m)"
proof (cases xs)
  case Nil
  then show ?thesis using assms by simp
next
  case (Cons x ys)
  then show ?thesis using assms foldl_max_by [of key x ys] by auto
qed

lemma max_by_nonempty: "xs \<noteq> [] \<Longrightarrow> \<exists>m. max_by key xs = Inr m"
  by (cases xs) auto

lemma min_by_nonempty: "xs \<noteq> [] \<Longrightarrow> \<exists>m. min_by key xs = Inr m"
  by (cases xs) auto

lemma each_cell_nonempty:
  "0 < num_rows g \<Longrightarrow> 0 < num_columns g \<Longrightarrow> \<exists>c cs. each_cell g = c # cs"
proof -
  assume a: "0 < num_rows g" "0 < num_columns g"
  have r: "[0..<num_rows g] = 0 # [1..<num_rows g]" using a by (simp add: upt_conv_Cons)
  have c: "[0..<num_columns g] = 0 # [1..<num_columns g]" using a by (simp add: upt_conv_Cons)
  show ?thesis unfolding each_cell_def each_row_def by (subst r, subst c) simp
qed

section \<open>Correctness of DijkstraMarkup\<close>

lemma heappop_props:
  assumes "heappop fr = Inr (x, fr1)"
  shows "x \<in> set fr" and "set fr \<subseteq> insert x (set fr1)" and "set fr1 \<subseteq> set fr"
    and "Suc (length fr1) = length fr"
proof -
  obtain y ys where fr: "fr = y # ys" using assms by (cases fr) auto
  have m: "fold min ys y \<in> set (y # ys)" for y :: "int \<times> cell" and ys
  proof (induction ys arbitrary: y)
    case Nil
    then show ?case by simp
  next
    case (Cons z zs)
    show ?case using Cons [of "min z y"] by (auto simp: min_def split: if_splits)
  qed
  have x: "x = fold min ys y" and fr1: "fr1 = remove1 x fr"
    using assms fr by (auto simp: Let_def)
  show "x \<in> set fr" using m [of ys y] x fr by simp
  then show "Suc (length fr1) = length fr"
    using fr1 by (simp add: length_remove1) (cases fr; simp)
  show "set fr1 \<subseteq> set fr" using fr1 set_remove1_subset by fast
  show "set fr \<subseteq> insert x (set fr1)"
  proof
    fix y assume "y \<in> set fr"
    then show "y \<in> insert x (set fr1)"
      unfolding fr1 by (cases "y = x") (simp_all add: in_set_remove1)
  qed
qed

lemma heappop_nonempty: "fr \<noteq> [] \<Longrightarrow> \<exists>r. heappop fr = Inr r"
  by (cases fr) (simp_all add: Let_def del: split_paired_Ex)

lemma map_of_setitem: "map_of (marks (setitem m c v)) = (map_of (marks m))(c \<mapsto> v)"
  by (simp add: setitem_def update_conv')

lemma getitem_Some: "map_of (marks m) c = Some d \<Longrightarrow> getitem m c = d"
  by (simp add: getitem_def)

lemma relax_cases:
  assumes "dijkstra_relax dst (m, fr) n = (m1, fr1)"
  shows "(m1 = m \<and> fr1 = fr \<and> (\<exists>d1. map_of (marks m) n = Some d1 \<and> d1 \<le> dst + 1)) \<or>
         (map_of (marks m1) = (map_of (marks m))(n \<mapsto> dst + 1) \<and> fr1 = (dst + 1, n) # fr \<and>
          (map_of (marks m) n = None \<or>
           (\<exists>old. map_of (marks m) n = Some old \<and> dst + 1 < old)))"
proof (cases "map_of (marks m) n")
  case None
  then show ?thesis using assms
    by (auto simp: dijkstra_relax_def map_of_setitem heappush_def)
next
  case (Some old)
  then have "getitem m n = old" by (rule getitem_Some)
  then show ?thesis using assms Some
    by (auto simp: dijkstra_relax_def map_of_setitem heappush_def split: if_splits)
qed

lemma walk_extend:
  "walk g a (nat d) c \<Longrightarrow> 0 \<le> d \<Longrightarrow> is_linked g c b \<Longrightarrow> walk g a (nat (d + 1)) b"
proof -
  assume w: "walk g a (nat d) c" and d: "0 \<le> d" and l: "is_linked g c b"
  have "nat (d + 1) = Suc (nat d)" using d by simp
  then show ?thesis using walk_step [OF w l] by simp
qed

lemma marks_decrease_refl: "marks_decrease M M"
  by (simp add: marks_decrease_def)

lemma marks_decrease_trans:
  "marks_decrease M M1 \<Longrightarrow> marks_decrease M1 M2 \<Longrightarrow> marks_decrease M M2"
  unfolding marks_decrease_def by (meson order_trans)

lemma marks_decrease_upd:
  "M n = None \<or> (\<exists>old. M n = Some old \<and> v \<le> old) \<Longrightarrow> marks_decrease M (M(n \<mapsto> v))"
  unfolding marks_decrease_def by auto

lemma settled_decrease:
  "settled g M c d \<Longrightarrow> marks_decrease M M1 \<Longrightarrow> settled g M1 c d"
  unfolding settled_def marks_decrease_def by (meson order_trans)

lemma frontier_ok_decrease:
  "frontier_ok M fr \<Longrightarrow> marks_decrease M M1 \<Longrightarrow> frontier_ok M1 fr"
  unfolding frontier_ok_def marks_decrease_def by (meson order_trans)

lemma marks_soundD:
  "marks_sound g rt M \<Longrightarrow> M c = Some d \<Longrightarrow> 0 \<le> d \<and> walk g rt (nat d) c"
  unfolding marks_sound_def by blast

lemma marks_sound_rt: "marks_sound g rt M \<Longrightarrow> M rt = Some 0"
  unfolding marks_sound_def by blast

lemma marks_soundI:
  "M rt = Some 0 \<Longrightarrow> (\<And>c d. M c = Some d \<Longrightarrow> 0 \<le> d \<and> walk g rt (nat d) c) \<Longrightarrow>
     marks_sound g rt M"
  unfolding marks_sound_def by blast

lemma frontier_okD:
  "frontier_ok M fr \<Longrightarrow> (d, c) \<in> set fr \<Longrightarrow> \<exists>d1. M c = Some d1 \<and> d1 \<le> d"
  unfolding frontier_ok_def by force

lemma frontier_okI:
  "(\<And>d c. (d, c) \<in> set fr \<Longrightarrow> \<exists>d1. M c = Some d1 \<and> d1 \<le> d) \<Longrightarrow> frontier_ok M fr"
  unfolding frontier_ok_def by force

lemma relax_invD:
  assumes "relax_inv g rt cell dst (m, fr)"
  shows "marks_sound g rt (map_of (marks m))" and "map_of (marks m) cell = Some dst"
    and "frontier_ok (map_of (marks m)) fr"
    and "\<And>c d. c \<noteq> cell \<Longrightarrow> map_of (marks m) c = Some d \<Longrightarrow>
           (d, c) \<in> set fr \<or> settled g (map_of (marks m)) c d"
  using assms unfolding relax_inv_def by blast+

lemma relax_invI:
  assumes "marks_sound g rt (map_of (marks m))" and "map_of (marks m) cell = Some dst"
    and "frontier_ok (map_of (marks m)) fr"
    and "\<And>c d. c \<noteq> cell \<Longrightarrow> map_of (marks m) c = Some d \<Longrightarrow>
           (d, c) \<in> set fr \<or> settled g (map_of (marks m)) c d"
  shows "relax_inv g rt cell dst (m, fr)"
  using assms unfolding relax_inv_def by blast

lemma relax_inv_step:
  assumes inv: "relax_inv g rt cell dst (m, fr)"
    and n: "n \<in> set (links g cell)"
    and r: "dijkstra_relax dst (m, fr) n = (m1, fr1)"
  shows "relax_inv g rt cell dst (m1, fr1) \<and>
         marks_decrease (map_of (marks m)) (map_of (marks m1)) \<and>
         (\<exists>d1. map_of (marks m1) n = Some d1 \<and> d1 \<le> dst + 1)"
proof -
  let ?M = "map_of (marks m)"
  let ?M1 = "map_of (marks m1)"
  note sound = relax_invD(1) [OF inv] and cell = relax_invD(2) [OF inv]
    and fok = relax_invD(3) [OF inv] and pend = relax_invD(4) [OF inv]
  have dst0: "0 \<le> dst" and wcell: "walk g rt (nat dst) cell"
    using marks_soundD [OF sound cell] by simp_all
  from relax_cases [OF r] show ?thesis
  proof
    assume "m1 = m \<and> fr1 = fr \<and> (\<exists>d1. ?M n = Some d1 \<and> d1 \<le> dst + 1)"
    then show ?thesis using inv by (simp add: marks_decrease_refl)
  next
    assume u: "?M1 = ?M(n \<mapsto> dst + 1) \<and> fr1 = (dst + 1, n) # fr \<and>
      (?M n = None \<or> (\<exists>old. ?M n = Some old \<and> dst + 1 < old))"
    then have M1: "?M1 = ?M(n \<mapsto> dst + 1)" and fr1: "fr1 = (dst + 1, n) # fr"
      and new: "?M n = None \<or> (\<exists>old. ?M n = Some old \<and> dst + 1 < old)"
      by blast+
    have dec: "marks_decrease ?M ?M1"
      unfolding M1 using new by (intro marks_decrease_upd) auto
    have nrt: "n \<noteq> rt"
      using new marks_sound_rt [OF sound] dst0 by auto
    have ncell: "n \<noteq> cell"
      using new cell by auto
    have wn: "walk g rt (nat (dst + 1)) n"
      using walk_extend [OF wcell dst0] n by (simp add: is_linked_def)
    have s1: "marks_sound g rt ?M1"
    proof (rule marks_soundI)
      show "?M1 rt = Some 0" using marks_sound_rt [OF sound] nrt by (simp add: M1)
    next
      fix c d assume "?M1 c = Some d"
      then show "0 \<le> d \<and> walk g rt (nat d) c"
        using marks_soundD [OF sound, of c d] wn dst0
        by (cases "c = n") (simp_all add: M1)
    qed
    have c1: "?M1 cell = Some dst"
      using cell ncell by (simp add: M1)
    have f1: "frontier_ok ?M1 fr1"
    proof (rule frontier_okI)
      fix d c assume "(d, c) \<in> set fr1"
      then have "(d = dst + 1 \<and> c = n) \<or> (d, c) \<in> set fr" by (simp add: fr1)
      then show "\<exists>d1. ?M1 c = Some d1 \<and> d1 \<le> d"
      proof
        assume "d = dst + 1 \<and> c = n"
        then show ?thesis by (simp add: M1)
      next
        assume "(d, c) \<in> set fr"
        then show ?thesis
          using frontier_okD [OF frontier_ok_decrease [OF fok dec]] by blast
      qed
    qed
    have p1: "(d, c) \<in> set fr1 \<or> settled g ?M1 c d" if "c \<noteq> cell" "?M1 c = Some d" for c d
    proof (cases "c = n")
      case True
      then show ?thesis using that fr1 by (simp add: M1)
    next
      case False
      then have "?M c = Some d" using that by (simp add: M1)
      from pend [OF that(1) this] show ?thesis
      proof
        assume "(d, c) \<in> set fr"
        then show ?thesis by (simp add: fr1)
      next
        assume "settled g ?M c d"
        then show ?thesis using settled_decrease [OF _ dec] by blast
      qed
    qed
    have "relax_inv g rt cell dst (m1, fr1)"
      using s1 c1 f1 p1 by (rule relax_invI)
    moreover have "\<exists>d1. ?M1 n = Some d1 \<and> d1 \<le> dst + 1" by (simp add: M1)
    ultimately show ?thesis using dec by blast
  qed
qed

lemma relax_inv_fold:
  assumes "relax_inv g rt cell dst s" and "set ls \<subseteq> set (links g cell)"
  shows "relax_inv g rt cell dst (foldl (dijkstra_relax dst) s ls) \<and>
         marks_decrease (map_of (marks (fst s)))
           (map_of (marks (fst (foldl (dijkstra_relax dst) s ls)))) \<and>
         (\<forall>n\<in>set ls. \<exists>d1.
            map_of (marks (fst (foldl (dijkstra_relax dst) s ls))) n = Some d1 \<and> d1 \<le> dst + 1)"
  using assms
proof (induction ls arbitrary: s)
  case Nil
  then show ?case by (simp add: marks_decrease_refl)
next
  case (Cons x ls)
  obtain m fr where s: "s = (m, fr)" by (cases s)
  obtain m1 fr1 where r: "dijkstra_relax dst (m, fr) x = (m1, fr1)"
    by (cases "dijkstra_relax dst (m, fr) x")
  have x: "x \<in> set (links g cell)" and ls: "set ls \<subseteq> set (links g cell)"
    using Cons.prems(2) by auto
  note st = relax_inv_step [OF Cons.prems(1) [unfolded s] x r]
  note ih = Cons.IH [OF conjunct1 [OF st] ls]
  let ?res = "foldl (dijkstra_relax dst) (m1, fr1) ls"
  have d1: "marks_decrease (map_of (marks m)) (map_of (marks m1))" using st by blast
  have d2: "marks_decrease (map_of (marks m1)) (map_of (marks (fst ?res)))"
    using ih by simp
  have dec: "marks_decrease (map_of (marks m)) (map_of (marks (fst ?res)))"
    using marks_decrease_trans [OF d1 d2] .
  obtain dx where dx: "map_of (marks m1) x = Some dx" "dx \<le> dst + 1" using st by blast
  obtain dy where "map_of (marks (fst ?res)) x = Some dy" "dy \<le> dx"
    using d2 dx(1) unfolding marks_decrease_def by blast
  then have xr: "\<exists>d1. map_of (marks (fst ?res)) x = Some d1 \<and> d1 \<le> dst + 1"
    using dx(2) by auto
  have rest: "\<forall>n\<in>set ls. \<exists>d1. map_of (marks (fst ?res)) n = Some d1 \<and> d1 \<le> dst + 1"
    using ih by blast
  have inv: "relax_inv g rt cell dst ?res" using ih by blast
  show ?case
    using inv dec xr rest by (simp add: s r)
qed

lemma dijkstra_invD:
  assumes "dijkstra_inv g rt (e, m, fr)"
  shows "e = None" and "marks_sound g rt (map_of (marks m))"
    and "frontier_ok (map_of (marks m)) fr"
    and "\<And>c d. map_of (marks m) c = Some d \<Longrightarrow>
           (d, c) \<in> set fr \<or> settled g (map_of (marks m)) c d"
  using assms unfolding dijkstra_inv_def by blast+

lemma dijkstra_invI:
  assumes "marks_sound g rt (map_of (marks m))"
    and "frontier_ok (map_of (marks m)) fr"
    and "\<And>c d. map_of (marks m) c = Some d \<Longrightarrow>
           (d, c) \<in> set fr \<or> settled g (map_of (marks m)) c d"
  shows "dijkstra_inv g rt (None, m, fr)"
  using assms unfolding dijkstra_inv_def by blast

lemma frontier_ok_subset: "frontier_ok M fr \<Longrightarrow> set fr1 \<subseteq> set fr \<Longrightarrow> frontier_ok M fr1"
  unfolding frontier_ok_def by blast

text \<open>What one round of the loop does, in the two cases of the source.\<close>

lemma dijkstra_step_cases:
  assumes inv: "dijkstra_inv g rt (e, m, fr)" and cond: "dijkstra_cond (e, m, fr)"
  obtains (stale) dst cell fr1 where "heappop fr = Inr ((dst, cell), fr1)"
      "dst > getitem m cell" "dijkstra_step g (e, m, fr) = (None, m, fr1)"
  | (fresh) dst cell fr1 where "heappop fr = Inr ((dst, cell), fr1)"
      "map_of (marks m) cell = Some dst"
      "dijkstra_step g (e, m, fr) =
         (None, foldl (dijkstra_relax dst) (m, fr1) (all_links g cell))"
proof -
  have ne: "fr \<noteq> []" using cond by (simp add: dijkstra_cond_def)
  obtain r where r: "heappop fr = Inr r" using heappop_nonempty [OF ne] by blast
  obtain dst cell fr1 where r1: "r = ((dst, cell), fr1)" by (cases r) auto
  have pop: "heappop fr = Inr ((dst, cell), fr1)" using r r1 by simp
  have "(dst, cell) \<in> set fr" using heappop_props(1) [OF pop] .
  then obtain d1 where d1: "map_of (marks m) cell = Some d1" "d1 \<le> dst"
    using frontier_okD [OF dijkstra_invD(3) [OF inv]] by blast
  have gi: "getitem m cell = d1" using d1(1) by (rule getitem_Some)
  show thesis
  proof (cases "dst > getitem m cell")
    case True
    then have "dijkstra_step g (e, m, fr) = (None, m, fr1)"
      by (simp add: dijkstra_step_def pop)
    then show ?thesis using stale [OF pop True] by blast
  next
    case False
    then have eq: "d1 = dst" using gi d1(2) by simp
    have "dijkstra_step g (e, m, fr) =
        (None, foldl (dijkstra_relax dst) (m, fr1) (all_links g cell))"
      using False by (simp add: dijkstra_step_def pop split: prod.split)
    then show ?thesis using fresh [OF pop] d1(1) eq by blast
  qed
qed

lemma dijkstra_step_inv:
  assumes inv: "dijkstra_inv g rt s" and cond: "dijkstra_cond s"
  shows "dijkstra_inv g rt (dijkstra_step g s)"
proof -
  obtain e m fr where s: "s = (e, m, fr)" by (cases s)
  note inv1 = inv [unfolded s] and cond1 = cond [unfolded s]
  let ?M = "map_of (marks m)"
  note sound = dijkstra_invD(2) [OF inv1] and fok = dijkstra_invD(3) [OF inv1]
    and pend = dijkstra_invD(4) [OF inv1]
  from inv1 cond1 have "dijkstra_inv g rt (dijkstra_step g (e, m, fr))"
  proof (cases rule: dijkstra_step_cases)
    case (stale dst cell fr1)
    note pp = heappop_props [OF stale(1)]
    have "dijkstra_inv g rt (None, m, fr1)"
    proof (rule dijkstra_invI)
      show "marks_sound g rt ?M" by (rule sound)
      show "frontier_ok ?M fr1" using frontier_ok_subset [OF fok pp(3)] .
      fix c d assume cd: "?M c = Some d"
      have "(d, c) \<noteq> (dst, cell)"
        using stale(2) getitem_Some [OF cd] by auto
      then show "(d, c) \<in> set fr1 \<or> settled g ?M c d"
        using pend [OF cd] pp(2) by auto
    qed
    then show ?thesis by (simp add: stale(3))
  next
    case (fresh dst cell fr1)
    note pp = heappop_props [OF fresh(1)]
    have ri: "relax_inv g rt cell dst (m, fr1)"
    proof (rule relax_invI)
      show "marks_sound g rt ?M" by (rule sound)
      show "?M cell = Some dst" by (rule fresh(2))
      show "frontier_ok ?M fr1" using frontier_ok_subset [OF fok pp(3)] .
      fix c d assume c: "c \<noteq> cell" and cd: "?M c = Some d"
      then show "(d, c) \<in> set fr1 \<or> settled g ?M c d"
        using pend [OF cd] pp(2) by auto
    qed
    obtain m2 fr2 where res: "foldl (dijkstra_relax dst) (m, fr1) (all_links g cell) = (m2, fr2)"
      by (cases "foldl (dijkstra_relax dst) (m, fr1) (all_links g cell)")
    have "set (all_links g cell) \<subseteq> set (links g cell)" by (simp add: all_links_def)
    note fold = relax_inv_fold [OF ri this, unfolded res, simplified]
    let ?M2 = "map_of (marks m2)"
    have ri2: "relax_inv g rt cell dst (m2, fr2)" using fold by blast
    have set2: "settled g ?M2 cell dst"
      using fold by (simp add: settled_def all_links_def)
    have "dijkstra_inv g rt (None, m2, fr2)"
    proof (rule dijkstra_invI)
      show "marks_sound g rt ?M2" using relax_invD(1) [OF ri2] .
      show "frontier_ok ?M2 fr2" using relax_invD(3) [OF ri2] .
      fix c d assume cd: "?M2 c = Some d"
      show "(d, c) \<in> set fr2 \<or> settled g ?M2 c d"
      proof (cases "c = cell")
        case True
        then have "d = dst" using cd relax_invD(2) [OF ri2] by simp
        then show ?thesis using set2 True by simp
      next
        case False
        then show ?thesis using relax_invD(4) [OF ri2 False cd] by simp
      qed
    qed
    then show ?thesis by (simp add: fresh(3) res)
  qed
  then show ?thesis by (simp add: s)
qed

lemma dijkstra_inv_init:
  "dijkstra_inv g rt (None, setitem (Markup g d) rt 0, [(0, rt)])"
proof (rule dijkstra_invI)
  have M: "map_of (marks (setitem (Markup g d) rt (0::int))) = [rt \<mapsto> 0]"
    by (simp add: map_of_setitem Markup_def)
  show "marks_sound g rt (map_of (marks (setitem (Markup g d) rt 0)))"
    unfolding M by (rule marks_soundI) (auto intro: walk_refl split: if_splits)
  show "frontier_ok (map_of (marks (setitem (Markup g d) rt 0))) [(0, rt)]"
    unfolding M by (simp add: frontier_ok_def)
  fix c a assume "map_of (marks (setitem (Markup g d) rt 0)) c = Some a"
  then show "(a, c) \<in> set [(0, rt)] \<or>
      settled g (map_of (marks (setitem (Markup g d) rt 0))) c a"
    unfolding M by (auto split: if_splits)
qed

text \<open>When the frontier is empty every marked cell is settled, so the marks are least.\<close>

lemma settled_all_least:
  assumes sound: "marks_sound g rt M"
    and all: "\<And>c d. M c = Some d \<Longrightarrow> settled g M c d"
    and w: "walk g rt k c"
  shows "\<exists>d. M c = Some d \<and> d \<le> int k"
  using w
proof (induction rule: walk.induct)
  case walk_refl
  then show ?case using marks_sound_rt [OF sound] by simp
next
  case (walk_step k c b)
  then obtain d where d: "M c = Some d" "d \<le> int k" by blast
  have "b \<in> set (links g c)" using walk_step.hyps(2) by (simp add: is_linked_def)
  then obtain d1 where "M b = Some d1" "d1 \<le> d + 1"
    using all [OF d(1)] unfolding settled_def by blast
  then show ?case using d(2) by auto
qed

lemma finite_vertices: "finite (vertices g rt)"
  by (simp add: vertices_def)

lemma links_in_gridD:
  "links_in_grid g \<Longrightarrow> is_linked g a b \<Longrightarrow> a \<in> set (each_cell g) \<and> b \<in> set (each_cell g)"
  unfolding links_in_grid_def by blast

lemma walk_in_vertices: "walk g rt k c \<Longrightarrow> links_in_grid g \<Longrightarrow> c \<in> vertices g rt"
  by (induction rule: walk.induct) (auto simp: vertices_def dest: links_in_gridD)

lemma variant_upd_new:
  assumes "n \<in> vertices g rt" and "M n = None"
  shows "marks_variant g rt (M(n \<mapsto> v)) < marks_variant g rt M"
proof -
  let ?U = "{c \<in> vertices g rt. M c = None}"
  have e: "{c \<in> vertices g rt. (M(n \<mapsto> v)) c = None} = ?U - {n}"
    by auto
  have i: "n \<in> ?U" using assms by simp
  have f: "finite ?U" by (simp add: finite_vertices)
  have "card (?U - {n}) < card ?U" using card_Diff1_less [OF f i] .
  then have "unmarked_count g rt (M(n \<mapsto> v)) < unmarked_count g rt M"
    unfolding unmarked_count_def e .
  then show ?thesis by (simp add: marks_variant_def)
qed

lemma variant_upd_less:
  assumes n: "n \<in> vertices g rt" and old: "M n = Some old" and v: "0 \<le> v" "v < old"
  shows "marks_variant g rt (M(n \<mapsto> v)) < marks_variant g rt M"
proof -
  let ?f = "\<lambda>M c. case M c of None \<Rightarrow> 0 | Some d \<Rightarrow> nat d"
  have "{c \<in> vertices g rt. (M(n \<mapsto> v)) c = None} = {c \<in> vertices g rt. M c = None}"
    using old by auto
  then have u: "unmarked_count g rt (M(n \<mapsto> v)) = unmarked_count g rt M"
    by (simp add: unmarked_count_def)
  have a: "mark_sum g rt M = ?f M n + sum (?f M) (vertices g rt - {n})"
    unfolding mark_sum_def by (rule sum.remove [OF finite_vertices n])
  have b: "mark_sum g rt (M(n \<mapsto> v)) =
      ?f (M(n \<mapsto> v)) n + sum (?f (M(n \<mapsto> v))) (vertices g rt - {n})"
    unfolding mark_sum_def by (rule sum.remove [OF finite_vertices n])
  have c: "sum (?f (M(n \<mapsto> v))) (vertices g rt - {n}) = sum (?f M) (vertices g rt - {n})"
    by (rule sum.cong) auto
  have "?f (M(n \<mapsto> v)) n < ?f M n" using old v by simp
  then have "mark_sum g rt (M(n \<mapsto> v)) < mark_sum g rt M"
    unfolding a b c by simp
  then show ?thesis using u by (simp add: marks_variant_def)
qed

lemma relax_variant:
  assumes inv: "relax_inv g rt cell dst (m, fr)"
    and n: "n \<in> set (links g cell)" and lg: "links_in_grid g"
    and r: "dijkstra_relax dst (m, fr) n = (m1, fr1)"
  shows "(m1 = m \<and> fr1 = fr) \<or>
         marks_variant g rt (map_of (marks m1)) < marks_variant g rt (map_of (marks m))"
proof -
  let ?M = "map_of (marks m)"
  have dst0: "0 \<le> dst"
    using marks_soundD [OF relax_invD(1) [OF inv] relax_invD(2) [OF inv]] by simp
  have nv: "n \<in> vertices g rt"
    using links_in_gridD [OF lg, of cell n] n by (simp add: is_linked_def vertices_def)
  from relax_cases [OF r] show ?thesis
  proof
    assume "m1 = m \<and> fr1 = fr \<and> (\<exists>d1. ?M n = Some d1 \<and> d1 \<le> dst + 1)"
    then show ?thesis by simp
  next
    assume u: "map_of (marks m1) = ?M(n \<mapsto> dst + 1) \<and> fr1 = (dst + 1, n) # fr \<and>
      (?M n = None \<or> (\<exists>old. ?M n = Some old \<and> dst + 1 < old))"
    then have M1: "map_of (marks m1) = ?M(n \<mapsto> dst + 1)" by blast
    from u have "?M n = None \<or> (\<exists>old. ?M n = Some old \<and> dst + 1 < old)" by blast
    then have "marks_variant g rt (?M(n \<mapsto> dst + 1)) < marks_variant g rt ?M"
    proof
      assume "?M n = None"
      then show ?thesis by (rule variant_upd_new [OF nv])
    next
      assume "\<exists>old. ?M n = Some old \<and> dst + 1 < old"
      then obtain old where "?M n = Some old" "dst + 1 < old" by blast
      then show ?thesis using variant_upd_less [OF nv, of ?M old "dst + 1"] dst0 by simp
    qed
    then show ?thesis by (simp add: M1)
  qed
qed

lemma fold_variant:
  assumes "relax_inv g rt cell dst s" and "set ls \<subseteq> set (links g cell)"
    and lg: "links_in_grid g"
  shows "foldl (dijkstra_relax dst) s ls = s \<or>
         marks_variant g rt (map_of (marks (fst (foldl (dijkstra_relax dst) s ls))))
           < marks_variant g rt (map_of (marks (fst s)))"
  using assms(1,2)
proof (induction ls arbitrary: s)
  case Nil
  then show ?case by simp
next
  case (Cons x ls)
  obtain m fr where s: "s = (m, fr)" by (cases s)
  obtain m1 fr1 where r: "dijkstra_relax dst (m, fr) x = (m1, fr1)"
    by (cases "dijkstra_relax dst (m, fr) x")
  have x: "x \<in> set (links g cell)" and ls: "set ls \<subseteq> set (links g cell)"
    using Cons.prems(2) by auto
  note st = relax_inv_step [OF Cons.prems(1) [unfolded s] x r]
  note v1 = relax_variant [OF Cons.prems(1) [unfolded s] x lg r]
  note ih = Cons.IH [OF conjunct1 [OF st] ls]
  show ?case
    using v1 ih by (auto simp: s r intro: less_trans)
qed

lemma dijkstra_step_variant:
  assumes inv: "dijkstra_inv g rt s" and cond: "dijkstra_cond s" and lg: "links_in_grid g"
  shows "dijkstra_variant g rt (dijkstra_step g s) < dijkstra_variant g rt s"
proof -
  obtain e m fr where s: "s = (e, m, fr)" by (cases s)
  note inv1 = inv [unfolded s] and cond1 = cond [unfolded s]
  let ?M = "map_of (marks m)"
  note sound = dijkstra_invD(2) [OF inv1] and fok = dijkstra_invD(3) [OF inv1]
    and pend = dijkstra_invD(4) [OF inv1]
  from inv1 cond1
  have "dijkstra_variant g rt (dijkstra_step g (e, m, fr)) < dijkstra_variant g rt (e, m, fr)"
  proof (cases rule: dijkstra_step_cases)
    case (stale dst cell fr1)
    then show ?thesis
      using heappop_props(4) [OF stale(1)] by (auto simp: dijkstra_variant_def)
  next
    case (fresh dst cell fr1)
    note pp = heappop_props [OF fresh(1)]
    have ri: "relax_inv g rt cell dst (m, fr1)"
    proof (rule relax_invI)
      show "marks_sound g rt ?M" by (rule sound)
      show "?M cell = Some dst" by (rule fresh(2))
      show "frontier_ok ?M fr1" using frontier_ok_subset [OF fok pp(3)] .
      fix c d assume c: "c \<noteq> cell" and cd: "?M c = Some d"
      then show "(d, c) \<in> set fr1 \<or> settled g ?M c d"
        using pend [OF cd] pp(2) by auto
    qed
    obtain m2 fr2 where res: "foldl (dijkstra_relax dst) (m, fr1) (all_links g cell) = (m2, fr2)"
      by (cases "foldl (dijkstra_relax dst) (m, fr1) (all_links g cell)")
    have "set (all_links g cell) \<subseteq> set (links g cell)" by (simp add: all_links_def)
    from fold_variant [OF ri this lg, unfolded res]
    have "(m2 = m \<and> fr2 = fr1) \<or>
        marks_variant g rt (map_of (marks m2)) < marks_variant g rt ?M"
      by simp
    then show ?thesis
      using pp(4) by (auto simp: dijkstra_variant_def fresh(3) res)
  qed
  then show ?thesis by (simp add: s)
qed

lemma dijkstra_loop_terminates:
  assumes lg: "links_in_grid g"
  shows "\<exists>t. while_option dijkstra_cond (dijkstra_step g)
               (None, setitem (Markup g d) rt 0, [(0, rt)]) = Some t"
proof (rule wf_rel_while_option_Some
    [where P = "dijkstra_inv g rt" and R = "inv_image {(x, y). x < y} (dijkstra_variant g rt)"])
  show "wf (inv_image {(x, y). x < y} (dijkstra_variant g rt))"
    by (rule wf_inv_image) (rule wf)
  show "\<And>s. dijkstra_inv g rt s \<and> dijkstra_cond s \<Longrightarrow>
      (dijkstra_step g s, s) \<in> inv_image {(x, y). x < y} (dijkstra_variant g rt)"
    using dijkstra_step_variant [OF _ _ lg] by (simp add: inv_image_def)
  show "\<And>s. dijkstra_inv g rt s \<and> dijkstra_cond s \<Longrightarrow> dijkstra_inv g rt (dijkstra_step g s)"
    using dijkstra_step_inv by blast
  show "dijkstra_inv g rt (None, setitem (Markup g d) rt 0, [(0, rt)])"
    by (rule dijkstra_inv_init)
qed

lemma dijkstra_step_default:
  "dijkstra_cond s \<Longrightarrow> default_value (fst (snd (dijkstra_step g s))) = default_value (fst (snd s))"
proof -
  assume c: "dijkstra_cond s"
  have rel: "default_value (fst (dijkstra_relax dst q n)) = default_value (fst q)" for dst q n
    by (cases q) (simp add: dijkstra_relax_def setitem_def)
  have fold: "default_value (fst (foldl (dijkstra_relax dst) q ls)) = default_value (fst q)"
    for dst q ls
    by (induction ls arbitrary: q) (simp_all add: rel)
  obtain e m fr where s: "s = (e, m, fr)" by (cases s)
  show ?thesis
    using fold [of _ "(m, _)"]
    by (auto simp: s dijkstra_step_def split: sum.splits prod.splits)
qed

lemma DijkstraMarkup_correct:
  assumes lg: "links_in_grid g"
  shows "\<exists>m. DijkstraMarkup g rt d = Some (Inr m) \<and> default_value m = d \<and>
           (\<forall>c k. map_of (marks m) c = Some k \<longleftrightarrow> 0 \<le> k \<and> shortest g rt (nat k) c)"
proof -
  let ?s0 = "(None, setitem (Markup g d) rt 0, [(0, rt)]) :: error option \<times> int markup \<times> frontier"
  obtain t where t: "while_option dijkstra_cond (dijkstra_step g) ?s0 = Some t"
    using dijkstra_loop_terminates [OF lg] by blast
  obtain e m fr where tt: "t = (e, m, fr)" by (cases t)
  have inv: "dijkstra_inv g rt (e, m, fr)"
    using while_option_rule [where P = "dijkstra_inv g rt", OF dijkstra_step_inv t dijkstra_inv_init]
    by (simp add: tt)
  have e: "e = None" using dijkstra_invD(1) [OF inv] .
  have "\<not> dijkstra_cond t" using while_option_stop [OF t] .
  then have fr: "fr = []" using e by (simp add: tt dijkstra_cond_def)
  have dv: "default_value m = d"
    using while_option_rule
      [where P = "\<lambda>s. default_value (fst (snd s)) = d", OF _ t]
      dijkstra_step_default
    by (simp add: tt setitem_def Markup_def)
  let ?M = "map_of (marks m)"
  note sound = dijkstra_invD(2) [OF inv]
  have all: "settled g ?M c k" if "?M c = Some k" for c k
    using dijkstra_invD(4) [OF inv that] fr by simp
  have iff: "?M c = Some k \<longleftrightarrow> 0 \<le> k \<and> shortest g rt (nat k) c" for c k
  proof
    assume ck: "?M c = Some k"
    have k0: "0 \<le> k" and wk: "walk g rt (nat k) c" using marks_soundD [OF sound ck] by simp_all
    have "nat k \<le> j" if "walk g rt j c" for j
      using settled_all_least [OF sound all that] ck by auto
    then show "0 \<le> k \<and> shortest g rt (nat k) c"
      using k0 wk by (simp add: shortest_def)
  next
    assume a: "0 \<le> k \<and> shortest g rt (nat k) c"
    then have wk: "walk g rt (nat k) c" and least: "\<And>j. walk g rt j c \<Longrightarrow> nat k \<le> j"
      by (simp_all add: shortest_def)
    obtain d1 where d1: "?M c = Some d1" "d1 \<le> int (nat k)"
      using settled_all_least [OF sound all wk] by blast
    have "0 \<le> d1" and "walk g rt (nat d1) c" using marks_soundD [OF sound d1(1)] by simp_all
    then have "nat k \<le> nat d1" using least by blast
    then show "?M c = Some k" using d1 a \<open>0 \<le> d1\<close> by simp
  qed
  have "DijkstraMarkup g rt d = Some (Inr m)"
    by (simp add: DijkstraMarkup_def t tt e)
  then show ?thesis using dv iff by blast
qed

lemma shortest_unique: "shortest g a k b \<Longrightarrow> shortest g a j b \<Longrightarrow> k = j"
  by (simp add: shortest_def le_antisym)

lemma shortest_exists: "walk g a k b \<Longrightarrow> \<exists>j. shortest g a j b"
proof -
  assume w: "walk g a k b"
  let ?j = "LEAST j. walk g a j b"
  have "walk g a ?j b" using w by (rule LeastI)
  moreover have "\<And>i. walk g a i b \<Longrightarrow> ?j \<le> i" by (rule Least_le)
  ultimately show ?thesis unfolding shortest_def by blast
qed

section \<open>The generation algorithms change the grid by linking only\<close>

lemma binary_tree_cell_links:
  assumes "north g c \<noteq> None \<or> east g c \<noteq> None"
  shows "\<exists>n. (north g c = Some n \<or> east g c = Some n) \<and>
             binary_tree_cell rnd (g, i) c = (None, link g c n True, i + 1)"
proof (cases "north g c")
  case None
  then obtain b where b: "east g c = Some b" using assms by auto
  show ?thesis
    using None b by (simp add: binary_tree_cell_def opt_list_def choice1)
next
  case (Some a)
  show ?thesis
  proof (cases "east g c")
    case None
    then show ?thesis
      using Some by (simp add: binary_tree_cell_def opt_list_def choice1)
  next
    case (Some b)
    show ?thesis
    proof (cases "rnd i mod 2 = 0")
      case True
      then have "binary_tree_cell rnd (g, i) c = (None, link g c a True, i + 1)"
        using \<open>north g c = Some a\<close> Some
        by (simp add: binary_tree_cell_def opt_list_def choice2)
      then show ?thesis using \<open>north g c = Some a\<close> by blast
    next
      case False
      then have "binary_tree_cell rnd (g, i) c = (None, link g c b True, i + 1)"
        using \<open>north g c = Some a\<close> Some
        by (simp add: binary_tree_cell_def opt_list_def choice2)
      then show ?thesis using Some by blast
    qed
  qed
qed

lemma binary_tree_cell_idle:
  "north g c = None \<Longrightarrow> east g c = None \<Longrightarrow> binary_tree_cell rnd (g, i) c = (None, g, i)"
  by (simp add: binary_tree_cell_def opt_list_def)

lemma neighbours_3x3:
  assumes "c \<in> set (each_cell (unlinked 3 3))" and "num_columns g = 3"
  shows "(north g c = None \<and> east g c = None) = (c = (0, 2))"
proof -
  have "c \<in> set [(0,0), (0,1), (0,2), (1,0), (1,1), (1,2), (2,0), (2,1), (2,2)]"
    using assms(1) by (simp add: each_cell_3x3)
  then show ?thesis
    using assms(2) by (auto simp: north_def east_def)
qed

lemma for_each_rule:
  assumes "P s" and "\<And>s x. P s \<Longrightarrow> x \<in> set xs \<Longrightarrow> P (snd (f s x))"
  shows "P (snd (for_each f s xs))"
  using assms
proof (induction xs arbitrary: s)
  case Nil
  then show ?case by simp
next
  case (Cons x xs)
  obtain eo s1 where r: "f s x = (eo, s1)" by (cases "f s x")
  have s1: "P s1" using Cons.prems(2) [OF Cons.prems(1), of x] r by simp
  show ?case
  proof (cases eo)
    case None
    then show ?thesis using Cons.IH [OF s1] Cons.prems(2) r by simp
  next
    case (Some e)
    then show ?thesis using s1 r by simp
  qed
qed

text \<open>
  The generation algorithms change the grid by bidirectional \<^verbatim>\<open>link\<close> calls only: a
  property of grids that every such call preserves holds of the grid they leave.
\<close>

lemma binary_tree_cell_closed:
  assumes step: "\<And>g a b. P g \<Longrightarrow> P (link g a b True)" and "P g"
  shows "P (fst (snd (binary_tree_cell rnd (g, i) c)))"
proof (cases "north g c = None \<and> east g c = None")
  case True
  then show ?thesis using assms(2) by (simp add: binary_tree_cell_idle)
next
  case False
  then obtain n where "binary_tree_cell rnd (g, i) c = (None, link g c n True, i + 1)"
    using binary_tree_cell_links [of g c rnd i] by blast
  then show ?thesis using step [OF assms(2)] by simp
qed

lemma binary_tree_closed:
  assumes step: "\<And>g a b. P g \<Longrightarrow> P (link g a b True)" and "P g"
  shows "P (snd (binary_tree rnd g))"
proof -
  have "(P \<circ> fst) (snd (for_each (binary_tree_cell rnd) (g, 0) (each_cell g)))"
  proof (rule for_each_rule)
    show "(P \<circ> fst) (g, 0)" using assms(2) by simp
    fix s :: "grid \<times> nat" and x
    assume "(P \<circ> fst) s"
    then show "(P \<circ> fst) (snd (binary_tree_cell rnd s x))"
      using binary_tree_cell_closed [of P, OF step, of "fst s" rnd "snd s" x] by simp
  qed
  then show ?thesis
    by (simp add: binary_tree_def case_prod_beta)
qed

lemma sidewinder_cell_closed:
  assumes step: "\<And>g a b. P g \<Longrightarrow> P (link g a b True)" and "P g"
  shows "P (fst (snd (sidewinder_cell rnd odds (g, i, run) c)))"
  using step [OF assms(2)] assms(2)
  by (simp add: sidewinder_cell_def Let_def split: option.splits sum.splits)

lemma sidewinder_row_closed:
  assumes step: "\<And>g a b. P g \<Longrightarrow> P (link g a b True)" and "P g"
  shows "P (fst (snd (sidewinder_row rnd odds (g, i) row)))"
proof -
  have "(P \<circ> fst) (snd (for_each (sidewinder_cell rnd odds) (g, i, []) row))"
  proof (rule for_each_rule)
    show "(P \<circ> fst) (g, i, [])" using assms(2) by simp
    fix s :: "grid \<times> nat \<times> cell list" and x
    assume "(P \<circ> fst) s"
    then show "(P \<circ> fst) (snd (sidewinder_cell rnd odds s x))"
      using sidewinder_cell_closed [of P, OF step, of "fst s" rnd odds "fst (snd s)" "snd (snd s)" x]
      by simp
  qed
  then show ?thesis
    by (simp add: sidewinder_row_def case_prod_beta)
qed

lemma sidewinder_closed:
  assumes step: "\<And>g a b. P g \<Longrightarrow> P (link g a b True)" and "P g"
  shows "P (snd (sidewinder rnd g odds))"
proof -
  have "(P \<circ> fst) (snd (for_each (sidewinder_row rnd odds) (g, 0) (each_row g)))"
  proof (rule for_each_rule)
    show "(P \<circ> fst) (g, 0)" using assms(2) by simp
    fix s :: "grid \<times> nat" and x
    assume "(P \<circ> fst) s"
    then show "(P \<circ> fst) (snd (sidewinder_row rnd odds s x))"
      using sidewinder_row_closed [of P, OF step, of "fst s" rnd odds "snd s" x] by simp
  qed
  then show ?thesis
    using assms(2) by (simp add: sidewinder_def case_prod_beta)
qed

lemma aldous_broder_closed:
  assumes step: "\<And>g a b. P g \<Longrightarrow> P (link g a b True)" and "P g"
    and res: "aldous_broder rnd g = Some r"
  shows "P (snd r)"
proof (cases "random_cell rnd 0 g")
  case (Inl e)
  then show ?thesis using res assms(2) by (auto simp: aldous_broder_def)
next
  case (Inr ci)
  obtain current i where ci: "ci = (current, i)" by (cases ci)
  obtain t where t: "while_option aldous_broder_cond (aldous_broder_step rnd)
      (None, g, i, current, [current]) = Some t"
    using res Inr ci by (auto simp: aldous_broder_def split: option.splits)
  have "(P \<circ> fst \<circ> snd) t"
  proof (rule while_option_rule [OF _ t])
    show "(P \<circ> fst \<circ> snd) (None, g, i, current, [current])" using assms(2) by simp
    fix s :: "error option \<times> grid \<times> nat \<times> cell \<times> cell list"
    assume "(P \<circ> fst \<circ> snd) s"
    then show "(P \<circ> fst \<circ> snd) (aldous_broder_step rnd s)"
      using step by (auto simp: aldous_broder_step_def split: prod.splits sum.splits)
  qed
  then show ?thesis
    using res Inr ci t by (auto simp: aldous_broder_def split: prod.splits)
qed

lemma wilson_link_closed:
  assumes step: "\<And>g a b. P g \<Longrightarrow> P (link g a b True)" and "P (fst s)"
  shows "P (fst (snd (wilson_link path s k)))"
  using step [OF assms(2)]
  by (cases s) (simp add: wilson_link_def Let_def split: sum.splits)

lemma wilson_links_closed:
  assumes step: "\<And>g a b. P g \<Longrightarrow> P (link g a b True)" and "P g"
  shows "P (fst (snd (for_each (wilson_link path) (g, u) ks)))"
proof -
  have "(P \<circ> fst) (snd (for_each (wilson_link path) (g, u) ks))"
  proof (rule for_each_rule)
    show "(P \<circ> fst) (g, u)" using assms(2) by simp
    fix s :: "grid \<times> cell list" and x
    assume "(P \<circ> fst) s"
    then show "(P \<circ> fst) (snd (wilson_link path s x))"
      using wilson_link_closed [of P, OF step, of s path x] by simp
  qed
  then show ?thesis by simp
qed

lemma wilson_loop_closed:
  assumes step: "\<And>g a b. P g \<Longrightarrow> P (link g a b True)"
    and res: "wilson_loop rnd s = Some y"
  shows "P (fst s) \<longrightarrow> P (fst (snd y))"
proof (rule wilson_loop.raw_induct
    [where P = "\<lambda>rnd s y. P (fst s) \<longrightarrow> P (fst (snd y))", OF _ res])
  fix loop :: "rand \<Rightarrow> grid \<times> nat \<times> cell list \<Rightarrow>
      (error option \<times> grid \<times> nat \<times> cell list) option"
  fix rnd s y
  assume ih: "\<And>rnd s y. loop rnd s = Some y \<Longrightarrow> P (fst s) \<longrightarrow> P (fst (snd y))"
  assume body: "(case s of
      (g, i, unvisited) \<Rightarrow>
        if \<not> 0 < length unvisited then Some (None, g, i, unvisited)
        else case choice rnd i unvisited of
             Inl e \<Rightarrow> Some (Some e, g, i, unvisited)
             | Inr start \<Rightarrow>
                 case while_option (wilson_walk_cond unvisited)
                       (wilson_walk_step rnd g) (None, i + 1, [start]) of
                 None \<Rightarrow> None
                 | Some (None, i1, path) \<Rightarrow>
                     case for_each (wilson_link path) (g, unvisited)
                           [0..<length path - 1] of
                     (None, g1, u1) \<Rightarrow> loop rnd (g1, i1, u1)
                     | (Some e, g1, u1) \<Rightarrow> Some (Some e, g1, i1, u1)
                 | Some (Some e, i1, path) \<Rightarrow>
                     Some (Some e, g, i1, unvisited)) = Some y"
  obtain g i u where s: "s = (g, i, u)" by (cases s)
  show "P (fst s) \<longrightarrow> P (fst (snd y))"
  proof
    assume "P (fst s)"
    then have pg: "P g" by (simp add: s)
    have lk: "P g1" if "for_each (wilson_link path) (g, u) ks = (eo, g1, u1)"
      for path ks eo g1 u1
      using wilson_links_closed [of P, OF step pg, of path u ks] that by simp
    have ih1: "loop rnd (g1, i1, u1) = Some y \<Longrightarrow> P g1 \<Longrightarrow> P (fst (snd y))" for g1 i1 u1
      using ih [of rnd "(g1, i1, u1)" y] by simp
    from body [unfolded s] show "P (fst (snd y))"
      using pg
      by (auto split: if_splits sum.splits option.splits prod.splits dest: lk ih1)
  qed
qed

lemma wilson_closed:
  assumes step: "\<And>g a b. P g \<Longrightarrow> P (link g a b True)" and "P g"
    and res: "wilson rnd g = Some r"
  shows "P (snd r)"
proof -
  have "P (fst (snd y))" if "wilson_loop rnd (g, i, u) = Some y" for i u y
    using wilson_loop_closed [of P, OF step that] assms(2) by simp
  then show ?thesis
    using res assms(2)
    by (auto simp: wilson_def split: sum.splits option.splits prod.splits)
qed

lemma hybrid_closed:
  assumes step: "\<And>g a b. P g \<Longrightarrow> P (link g a b True)" and "P g"
    and res: "hybrid rnd g threshold = Some r"
  shows "P (snd r)"
proof -
  have w: "P (fst (snd t))"
    if t: "while_option (hybrid_cond threshold) (hybrid_step rnd) (None, g, i, c, u) = Some t"
    for i c u t
  proof -
    have "(P \<circ> fst \<circ> snd) t"
    proof (rule while_option_rule [OF _ t])
      show "(P \<circ> fst \<circ> snd) (None, g, i, c, u)" using assms(2) by simp
      fix s :: "error option \<times> grid \<times> nat \<times> cell \<times> cell list"
      assume "(P \<circ> fst \<circ> snd) s"
      then show "(P \<circ> fst \<circ> snd) (hybrid_step rnd s)"
        using step by (auto simp: hybrid_step_def split: prod.splits sum.splits)
    qed
    then show ?thesis by simp
  qed
  have l: "P (fst (snd y))" if "wilson_loop rnd (g1, i, u) = Some y" "P g1" for g1 i u y
    using wilson_loop_closed [of P, OF step that(1)] that(2) by simp
  show ?thesis
    using res assms(2)
    by (auto simp: hybrid_def split: sum.splits option.splits prod.splits dest!: w dest: l)
qed

lemma recursive_backtracker_closed:
  assumes step: "\<And>g a b. P g \<Longrightarrow> P (link g a b True)" and "P g"
    and res: "recursive_backtracker rnd g start_cell = Some r"
  shows "P (snd r)"
proof -
  have w: "P (fst (snd t))"
    if t: "while_option recursive_backtracker_cond (recursive_backtracker_step rnd)
        (None, g, i, v, st) = Some t"
    for i v st t
  proof -
    have "(P \<circ> fst \<circ> snd) t"
    proof (rule while_option_rule [OF _ t])
      show "(P \<circ> fst \<circ> snd) (None, g, i, v, st)" using assms(2) by simp
      fix s :: "error option \<times> grid \<times> nat \<times> cell list \<times> cell list"
      assume "(P \<circ> fst \<circ> snd) s"
      then show "(P \<circ> fst \<circ> snd) (recursive_backtracker_step rnd s)"
        using step
        by (auto simp: recursive_backtracker_step_def Let_def split: prod.splits sum.splits)
    qed
    then show ?thesis by simp
  qed
  show ?thesis
    using res assms(2)
    by (auto simp: recursive_backtracker_def split: sum.splits option.splits prod.splits
        dest!: w)
qed

lemma two_cells_simps:
  "num_rows two_cells = Suc 0" "num_columns two_cells = 2" "links two_cells c = []"
  by (simp_all add: two_cells_def unlinked_simps)

lemma each_cell_two_cells: "each_cell two_cells = [(0, 0), (0, Suc 0)]"
  by (simp add: each_cell_def each_row_def two_cells_simps upt_rec)

lemma size_grid_link: "size_grid (link g a b bd) = size_grid g"
  by (simp add: size_grid_def dims_link)

lemma neighbors_link: "neighbors (link g a b bd) c = neighbors g c"
  by (simp add: neighbors_def north_def south_def east_def west_def dims_link)

lemma neighbors_two_cells:
  "neighbors two_cells (0, 0) = [(0, Suc 0)]" "neighbors two_cells (0, Suc 0) = [(0, 0)]"
  by (simp_all add: neighbors_def north_def south_def east_def west_def opt_list_def
      two_cells_simps)

lemma random_cell_zero_two_cells: "random_cell zero_rand 0 two_cells = Inr ((0, 0), 2)"
  by (simp add: random_cell_def randint0_def zero_rand_def two_cells_simps)

lemma while_option_step: "b s \<Longrightarrow> while_option b c s = while_option b c (c s)"
  by (subst while_option_unfold) simp

lemma while_option_done: "\<not> b s \<Longrightarrow> while_option b c s = Some s"
  by (subst while_option_unfold) simp

lemma aldous_broder_two_cells:
  "aldous_broder zero_rand two_cells = Some (None, link two_cells (0, Suc 0) (0, 0) True)"
  by (simp add: aldous_broder_def random_cell_zero_two_cells while_option_step
      while_option_done aldous_broder_cond_def aldous_broder_step_def size_grid_link
      neighbors_two_cells choice1 size_grid_def dims_link two_cells_simps)

lemma recursive_backtracker_two_cells:
  "recursive_backtracker zero_rand two_cells None =
     Some (None, link two_cells (0, 0) (0, Suc 0) True)"
  by (simp add: recursive_backtracker_def random_cell_zero_two_cells while_option_step
      while_option_done recursive_backtracker_cond_def recursive_backtracker_step_def
      neighbors_link neighbors_two_cells choice1 py_last_def Let_def)

lemma wilson_walk_two_cells:
  "while_option (wilson_walk_cond [(0, Suc 0)]) (wilson_walk_step zero_rand two_cells)
     (None, 3, [(0, Suc 0)]) = Some (None, 4, [(0, Suc 0), (0, 0)])"
  by (simp add: while_option_step while_option_done wilson_walk_cond_def
      wilson_walk_step_def py_last_def neighbors_two_cells choice1)

lemma wilson_loop_two_cells:
  "wilson_loop zero_rand (two_cells, 2, [(0, Suc 0)]) =
     Some (None, link two_cells (0, Suc 0) (0, 0) True, 4, [])"
  apply (subst wilson_loop.simps)
  apply (simp add: choice1 wilson_walk_two_cells wilson_link_def list_remove_def)
  apply (subst wilson_loop.simps)
  apply simp
  done

lemma wilson_two_cells:
  "wilson zero_rand two_cells = Some (None, link two_cells (0, Suc 0) (0, 0) True)"
  by (simp add: wilson_def random_cell_zero_two_cells each_cell_two_cells list_remove_def
      wilson_loop_two_cells)

lemma hybrid_two_cells:
  "hybrid zero_rand two_cells (1 / 2) =
     Some (None, link two_cells (0, Suc 0) (0, 0) True)"
  by (simp add: hybrid_def random_cell_zero_two_cells each_cell_two_cells list_remove_def
      while_option_done hybrid_cond_def size_grid_def two_cells_simps wilson_loop_two_cells)

lemma binary_tree_cell_result:
  "\<exists>g1 i1. binary_tree_cell rnd (g, i) c = (None, g1, i1) \<and>
     num_rows g1 = num_rows g \<and> num_columns g1 = num_columns g \<and>
     (\<forall>a b. is_linked g a b \<longrightarrow> is_linked g1 a b)"
proof (cases "north g c = None \<and> east g c = None")
  case True
  then show ?thesis by (simp add: binary_tree_cell_idle)
next
  case False
  then obtain n where "binary_tree_cell rnd (g, i) c = (None, link g c n True, i + 1)"
    using binary_tree_cell_links [of g c rnd i] by blast
  then show ?thesis by (simp add: dims_link is_linked_link)
qed

lemma binary_tree_cells_mono:
  "is_linked g a b \<Longrightarrow>
     is_linked (fst (snd (for_each (binary_tree_cell rnd) (g, i) xs))) a b"
proof -
  assume l: "is_linked g a b"
  have "((\<lambda>g. is_linked g a b) \<circ> fst) (snd (for_each (binary_tree_cell rnd) (g, i) xs))"
  proof (rule for_each_rule)
    show "((\<lambda>g. is_linked g a b) \<circ> fst) (g, i)" using l by simp
    fix s :: "grid \<times> nat" and x
    assume "((\<lambda>g. is_linked g a b) \<circ> fst) s"
    then show "((\<lambda>g. is_linked g a b) \<circ> fst) (snd (binary_tree_cell rnd s x))"
      using binary_tree_cell_closed [of "\<lambda>g. is_linked g a b" "fst s" rnd "snd s" x]
      by (simp add: is_linked_link)
  qed
  then show ?thesis by simp
qed

lemma binary_tree_cells_link:
  "c \<in> set xs \<Longrightarrow> north g c \<noteq> None \<or> east g c \<noteq> None \<Longrightarrow>
     \<exists>n. (north g c = Some n \<or> east g c = Some n) \<and>
         is_linked (fst (snd (for_each (binary_tree_cell rnd) (g, i) xs))) c n"
proof (induction xs arbitrary: g i)
  case Nil
  then show ?case by simp
next
  case (Cons x xs)
  obtain g1 i1 where r: "binary_tree_cell rnd (g, i) x = (None, g1, i1)"
    and d: "num_rows g1 = num_rows g" "num_columns g1 = num_columns g"
    using binary_tree_cell_result [of rnd g i x] by blast
  have ne: "north g1 c = north g c" "east g1 c = east g c"
    using d by (simp_all add: north_def east_def)
  have res: "for_each (binary_tree_cell rnd) (g, i) (x # xs) =
      for_each (binary_tree_cell rnd) (g1, i1) xs"
    by (simp add: r)
  show ?case
  proof (cases "c = x")
    case True
    obtain n where n: "north g c = Some n \<or> east g c = Some n"
      and st: "binary_tree_cell rnd (g, i) c = (None, link g c n True, i + 1)"
      using binary_tree_cell_links [OF Cons.prems(2), of rnd i] by blast
    have "g1 = link g c n True" using st r True by simp
    then have "is_linked g1 c n" by (simp add: is_linked_link)
    then show ?thesis
      using binary_tree_cells_mono [of g1 c n rnd i1 xs] n unfolding res by blast
  next
    case False
    then have "c \<in> set xs" using Cons.prems(1) by simp
    from Cons.IH [OF this, of g1 i1] Cons.prems(2)
    show ?thesis unfolding res ne by simp
  qed
qed

lemma binary_tree_links:
  assumes "c \<in> set (each_cell g)" and "north g c \<noteq> None \<or> east g c \<noteq> None"
  shows "\<exists>n. (north g c = Some n \<or> east g c = Some n) \<and>
             is_linked (snd (binary_tree rnd g)) c n"
  using binary_tree_cells_link [OF assms, of rnd 0]
  by (simp add: binary_tree_def case_prod_beta)

section \<open>The grid of one row linked in a line\<close>

lemma line_gridD:
  assumes "line_grid g n"
  shows "num_rows g = 1" and "num_columns g = n"
    and "\<And>a b. is_linked g a b \<longleftrightarrow>
        fst a = 0 \<and> fst b = 0 \<and> snd a < n \<and> snd b < n \<and>
        (snd b = snd a + 1 \<or> snd a = snd b + 1)"
  using assms unfolding line_grid_def by blast+

lemma each_cell_line: "num_rows g = 1 \<Longrightarrow> set (each_cell g) = {(0, c) | c. c < num_columns g}"
  by (auto simp: each_cell_def each_row_def)

lemma line_grid_links_in_grid: "line_grid g n \<Longrightarrow> links_in_grid g"
  unfolding links_in_grid_def
  by (auto simp: line_gridD(3) each_cell_line line_gridD(1) line_gridD(2) prod_eq_iff)

lemma line_walk_east: "line_grid g n \<Longrightarrow> k < n \<Longrightarrow> walk g (0, 0) k (0, k)"
proof (induction k)
  case 0
  then show ?case by (simp add: walk_refl)
next
  case (Suc k)
  then have w: "walk g (0, 0) k (0, k)" by simp
  have "is_linked g (0, k) (0, Suc k)"
    using Suc.prems by (simp add: line_gridD(3))
  then show ?case using walk_step [OF w] by blast
qed

lemma line_walk_bound: "walk g (0, 0) j b \<Longrightarrow> line_grid g n \<Longrightarrow> snd b \<le> j"
proof (induction rule: walk.induct)
  case walk_refl
  then show ?case by simp
next
  case (walk_step k c b)
  then have "snd c \<le> k" by simp
  moreover have "snd b \<le> snd c + 1"
    using walk_step.hyps(2) walk_step.prems by (auto simp: line_gridD(3))
  ultimately show ?case by simp
qed

lemma line_shortest: "line_grid g n \<Longrightarrow> k < n \<Longrightarrow> shortest g (0, 0) k (0, k)"
  unfolding shortest_def using line_walk_east line_walk_bound by fastforce

lemma is_linked_unlinked: "\<not> is_linked (unlinked nr nc) a b"
  by (simp add: is_linked_def unlinked_simps)

lemma is_linked_line3:
  "is_linked line3 a b \<longleftrightarrow>
     (a = (0, 0) \<and> b = (0, 1)) \<or> (a = (0, 1) \<and> b = (0, 0)) \<or>
     (a = (0, 1) \<and> b = (0, 2)) \<or> (a = (0, 2) \<and> b = (0, 1))"
  unfolding line3_def is_linked_link by (auto simp: is_linked_unlinked)

lemma line_grid_line3: "line_grid line3 3"
proof -
  have d: "num_rows line3 = 1" "num_columns line3 = 3"
    by (simp_all add: line3_def dims_link unlinked_simps)
  have "is_linked line3 a b \<longleftrightarrow>
        fst a = 0 \<and> fst b = 0 \<and> snd a < 3 \<and> snd b < 3 \<and>
        (snd b = snd a + 1 \<or> snd a = snd b + 1)" for a b
    unfolding is_linked_line3 prod_eq_iff by (simp only: fst_conv snd_conv) arith
  then show ?thesis unfolding line_grid_def using d by blast
qed

section \<open>Correctness of ShortestPathMarkup\<close>

lemma foldl_min_by:
  fixes key :: "'a \<Rightarrow> 'b::linorder"
  defines "f \<equiv> (\<lambda>best y. if key y < key best then y else best)"
  shows "foldl f b ys \<in> insert b (set ys) \<and> key (foldl f b ys) \<le> key b \<and>
         (\<forall>x\<in>set ys. key (foldl f b ys) \<le> key x)"
proof (induction ys arbitrary: b)
  case Nil
  then show ?case by simp
next
  case (Cons y ys)
  show ?case
  proof (cases "key y < key b")
    case True
    then have "foldl f b (y # ys) = foldl f y ys" by (simp add: f_def)
    then show ?thesis using Cons [of y] True by auto
  next
    case False
    then have "foldl f b (y # ys) = foldl f b ys" by (simp add: f_def)
    then show ?thesis using Cons [of b] False by auto
  qed
qed

lemma min_by_in:
  assumes "min_by key xs = Inr m"
  shows "m \<in> set xs \<and> (\<forall>x\<in>set xs. key m \<le> key x)"
proof (cases xs)
  case Nil
  then show ?thesis using assms by simp
next
  case (Cons x ys)
  then show ?thesis using assms foldl_min_by [of key x ys] by auto
qed

lemma lookup_keys_marked:
  assumes "\<And>c. c \<in> set ls \<Longrightarrow> \<exists>d. map_of m c = Some d"
  shows "\<exists>kcs. lookup_keys m ls = Inr kcs \<and> map snd kcs = ls \<and>
           (\<forall>kc\<in>set kcs. map_of m (snd kc) = Some (fst kc))"
  using assms
proof (induction ls)
  case Nil
  then show ?case by simp
next
  case (Cons c cs)
  obtain d where d: "map_of m c = Some d" using Cons.prems [of c] by auto
  have "\<And>c. c \<in> set cs \<Longrightarrow> \<exists>d. map_of m c = Some d" using Cons.prems by simp
  from Cons.IH [OF this]
  obtain kcs where k: "lookup_keys m cs = Inr kcs" "map snd kcs = cs"
    "\<forall>kc\<in>set kcs. map_of m (snd kc) = Some (fst kc)"
    by blast
  have "lookup_keys m (c # cs) = Inr ((d, c) # kcs)" by (simp add: d k(1))
  moreover have "map snd ((d, c) # kcs) = c # cs" by (simp add: k(2))
  moreover have "\<forall>kc\<in>set ((d, c) # kcs). map_of m (snd kc) = Some (fst kc)"
    using d k(3) by simp
  ultimately show ?case by (intro exI [of _ "(d, c) # kcs"] conjI)
qed

lemma min_link_least:
  assumes marked: "\<And>c. c \<in> set ls \<Longrightarrow> \<exists>d. map_of m c = Some d" and ne: "ls \<noteq> []"
  shows "\<exists>c d. min_link m ls = Inr c \<and> c \<in> set ls \<and> map_of m c = Some d \<and>
           (\<forall>c1\<in>set ls. \<forall>d1. map_of m c1 = Some d1 \<longrightarrow> d \<le> d1)"
proof -
  obtain kcs where k: "lookup_keys m ls = Inr kcs" "map snd kcs = ls"
    "\<forall>kc\<in>set kcs. map_of m (snd kc) = Some (fst kc)"
    using lookup_keys_marked [OF marked] by blast
  have sets: "set ls = snd ` set kcs" using k(2) by (simp add: set_map [symmetric])
  have "kcs \<noteq> []" using k(2) ne by auto
  then obtain kc where kc: "min_by fst kcs = Inr kc" using min_by_nonempty by blast
  note mi = min_by_in [OF kc]
  have r: "min_link m ls = Inr (snd kc)" by (simp add: min_link_def k(1) kc)
  have in1: "snd kc \<in> set ls" using mi sets by simp
  have mk: "map_of m (snd kc) = Some (fst kc)" using mi k(3) by simp
  have least: "fst kc \<le> d1" if "c1 \<in> set ls" "map_of m c1 = Some d1" for c1 d1
  proof -
    have "c1 \<in> snd ` set kcs" using that(1) sets by simp
    then obtain kc1 where kc1: "kc1 \<in> set kcs" "snd kc1 = c1"
      by (rule imageE) simp
    have "map_of m c1 = Some (fst kc1)" using k(3) kc1 by auto
    moreover have "fst kc \<le> fst kc1" using mi kc1(1) by simp
    ultimately show ?thesis using that(2) by simp
  qed
  show ?thesis
    apply (rule exI [of _ "snd kc"])
    apply (rule exI [of _ "fst kc"])
    using r in1 mk least by simp
qed

lemma distancesD:
  "distances g a M \<Longrightarrow> M c = Some k \<Longrightarrow> 0 \<le> k \<and> shortest g a (nat k) c"
  unfolding distances_def by blast

lemma distancesI2:
  "distances g a M \<Longrightarrow> shortest g a j c \<Longrightarrow> M c = Some (int j)"
  unfolding distances_def by (metis nat_int of_nat_0_le_iff)

lemma DijkstraMarkup_distances:
  assumes "links_in_grid g"
  shows "\<exists>m. DijkstraMarkup g a d = Some (Inr m) \<and> default_value m = d \<and>
           distances g a (map_of (marks m))"
  using DijkstraMarkup_correct [OF assms, of a d] unfolding distances_def by blast

lemma distances_of_walk:
  assumes "distances g a M" and "walk g a j c"
  shows "\<exists>k. M c = Some k \<and> 0 \<le> k \<and> k \<le> int j"
proof -
  obtain i where i: "shortest g a i c" using shortest_exists [OF assms(2)] by blast
  have "i \<le> j" using i assms(2) by (simp add: shortest_def)
  then show ?thesis using distancesI2 [OF assms(1) i] by simp
qed

lemma distances_start: "distances g a M \<Longrightarrow> M a = Some 0"
  using distancesI2 [of g a M 0 a] by (simp add: shortest_def walk_refl)

lemma walk_zero: "walk g a 0 c \<Longrightarrow> c = a"
  by (erule walk.cases) simp_all

lemma walk_Suc: "walk g a (Suc k) b \<Longrightarrow> \<exists>c. walk g a k c \<and> is_linked g c b"
  by (erule walk.cases) auto

lemma distances_zero: "distances g a M \<Longrightarrow> M c = Some 0 \<Longrightarrow> c = a"
  using distancesD [of g a M c 0] by (simp add: shortest_def walk_zero)

lemma distances_link_upper:
  assumes "distances g a M" and "M c = Some k" and "is_linked g c b"
  shows "\<exists>j. M b = Some j \<and> 0 \<le> j \<and> j \<le> k + 1"
proof -
  have k: "0 \<le> k" "walk g a (nat k) c"
    using distancesD [OF assms(1,2)] by (simp_all add: shortest_def)
  have "walk g a (Suc (nat k)) b" using walk_step [OF k(2) assms(3)] .
  from distances_of_walk [OF assms(1) this] show ?thesis using k(1) by auto
qed

lemma symmetricD: "symmetric g \<Longrightarrow> is_linked g a b \<Longrightarrow> is_linked g b a"
  unfolding symmetric_def by blast

lemma distances_links_lower:
  assumes "distances g a M" and "symmetric g" and "M cur = Some d"
    and "n \<in> set (links g cur)"
  shows "\<exists>j. M n = Some j \<and> d - 1 \<le> j"
proof -
  have l: "is_linked g cur n" using assms(4) by (simp add: is_linked_def)
  obtain j where j: "M n = Some j" "0 \<le> j"
    using distances_link_upper [OF assms(1,3) l] by blast
  obtain d1 where "M cur = Some d1" "d1 \<le> j + 1"
    using distances_link_upper [OF assms(1) j(1) symmetricD [OF assms(2) l]] by blast
  then show ?thesis using assms(3) j(1) by simp
qed

lemma distances_pred:
  assumes "distances g a M" and "symmetric g" and "M cur = Some d" and "0 < d"
  shows "\<exists>n\<in>set (links g cur). M n = Some (d - 1)"
proof -
  have w: "walk g a (nat d) cur"
    using distancesD [OF assms(1,3)] by (simp add: shortest_def)
  have "nat d = Suc (nat (d - 1))" using assms(4) by simp
  then obtain c where c: "walk g a (nat (d - 1)) c" "is_linked g c cur"
    using walk_Suc [of g a "nat (d - 1)" cur] w by auto
  obtain k where k: "M c = Some k" "0 \<le> k" "k \<le> int (nat (d - 1))"
    using distances_of_walk [OF assms(1) c(1)] by blast
  obtain d1 where "M cur = Some d1" "d1 \<le> k + 1"
    using distances_link_upper [OF assms(1) k(1) c(2)] by blast
  then have "k = d - 1" using assms(3,4) k(3) by simp
  moreover have "c \<in> set (links g cur)"
    using symmetricD [OF assms(2) c(2)] by (simp add: is_linked_def)
  ultimately show ?thesis using k(1) by auto
qed

lemma chain_marks_hd: "ch \<noteq> [] \<Longrightarrow> chain_marks M d ch \<Longrightarrow> M (hd ch) = Some d"
  by (cases ch) simp_all

lemma chain_marks_last:
  "ch \<noteq> [] \<Longrightarrow> chain_marks M d ch \<Longrightarrow> M (last ch) = Some (d + int (length ch) - 1)"
proof (induction ch arbitrary: d)
  case Nil
  then show ?case by simp
next
  case (Cons c cs)
  show ?case
  proof (cases cs)
    case Nil
    then show ?thesis using Cons.prems by simp
  next
    case (Cons c1 cs1)
    then have "M (last cs) = Some (d + 1 + int (length cs) - 1)"
      using Cons.IH [of "d + 1"] Cons.prems by simp
    then show ?thesis using Cons by simp
  qed
qed

lemma chain_marks_above:
  "chain_marks M d cs \<Longrightarrow> c \<in> set cs \<Longrightarrow> \<exists>k. M c = Some k \<and> d \<le> k"
proof (induction cs arbitrary: d)
  case Nil
  then show ?case by simp
next
  case (Cons x xs)
  show ?case
  proof (cases "c = x")
    case True
    then show ?thesis using Cons.prems by simp
  next
    case False
    then have "c \<in> set xs" using Cons.prems by simp
    then obtain k where "M c = Some k" "d + 1 \<le> k"
      using Cons.IH [of "d + 1"] Cons.prems by auto
    then show ?thesis by auto
  qed
qed

lemma chain_marks_distinct: "chain_marks M d cs \<Longrightarrow> distinct cs"
proof (induction cs arbitrary: d)
  case Nil
  then show ?case by simp
next
  case (Cons x xs)
  have "x \<notin> set xs"
  proof
    assume "x \<in> set xs"
    then obtain k where "M x = Some k" "d + 1 \<le> k"
      using chain_marks_above [of M "d + 1" xs x] Cons.prems by auto
    then show False using Cons.prems by simp
  qed
  then show ?case using Cons.IH [of "d + 1"] Cons.prems by simp
qed

lemma foldl_update_map_of:
  "map_of (foldl (\<lambda>path cell. AList.update cell v path) p0 cs) =
     (\<lambda>c. if c \<in> set cs then Some v else map_of p0 c)"
proof (induction cs arbitrary: p0)
  case Nil
  then show ?case by simp
next
  case (Cons x xs)
  show ?case
    unfolding foldl_Cons Cons.IH by (auto simp: update_conv' fun_eq_iff)
qed

lemma path_invI:
  assumes "ch \<noteq> []" "hd ch = current" "last ch = goal_cell" "linked_chain g ch"
    "chain_marks M d ch"
    "map_of path = (\<lambda>c. if c \<in> set (tl ch) then Some path_marker else P0 c)"
  shows "path_inv g M goal_cell path_marker P0 (None, path, current)"
  unfolding path_inv_def using assms by auto

lemma path_invE:
  assumes "path_inv g M goal_cell path_marker P0 (e, path, current)"
  obtains ch d where "e = None" "ch \<noteq> []" "hd ch = current" "last ch = goal_cell"
    "linked_chain g ch" "chain_marks M d ch"
    "map_of path = (\<lambda>c. if c \<in> set (tl ch) then Some path_marker else P0 c)"
  using assms unfolding path_inv_def by auto

lemma path_step_inv:
  assumes dist: "distances g start_cell (map_of m)" and sym: "symmetric g"
    and inv: "path_inv g (map_of m) goal_cell path_marker P0 s"
    and cond: "path_cond start_cell s"
  shows "path_inv g (map_of m) goal_cell path_marker P0 (path_step g m path_marker s) \<and>
         path_variant (map_of m) (path_step g m path_marker s) < path_variant (map_of m) s"
proof -
  let ?M = "map_of m"
  obtain e path cur where s: "s = (e, path, cur)" by (cases s)
  from inv [unfolded s] obtain ch d where e: "e = None" and ch: "ch \<noteq> []" "hd ch = cur"
    "last ch = goal_cell" "linked_chain g ch" "chain_marks ?M d ch"
    and pm: "map_of path = (\<lambda>c. if c \<in> set (tl ch) then Some path_marker else P0 c)"
    by (rule path_invE)
  have cur: "cur \<noteq> start_cell" using cond by (simp add: s path_cond_def)
  have mc: "?M cur = Some d" using chain_marks_hd [OF ch(1) ch(5)] ch(2) by simp
  have d0: "0 \<le> d" using distancesD [OF dist mc] by simp
  have "d \<noteq> 0"
  proof
    assume "d = 0"
    then have "cur = start_cell" using distances_zero [OF dist, of cur] mc by simp
    then show False using cur by simp
  qed
  then have dpos: "0 < d" using d0 by simp
  obtain n0 where n0: "n0 \<in> set (links g cur)" "?M n0 = Some (d - 1)"
    using distances_pred [OF dist sym mc dpos] by blast
  have marked: "\<exists>k. ?M c = Some k" if "c \<in> set (links g cur)" for c
    using distances_links_lower [OF dist sym mc that] by blast
  have ne: "links g cur \<noteq> []" using n0(1) by auto
  obtain c1 d1 where c1: "min_link m (links g cur) = Inr c1" "c1 \<in> set (links g cur)"
    "?M c1 = Some d1"
    and least: "\<forall>c2\<in>set (links g cur). \<forall>d2. ?M c2 = Some d2 \<longrightarrow> d1 \<le> d2"
    using min_link_least [of "links g cur" m, OF marked ne] by blast
  have "d1 \<le> d - 1" using least n0 by blast
  moreover have "d - 1 \<le> d1"
    using distances_links_lower [OF dist sym mc c1(2)] c1(3) by simp
  ultimately have d1: "d1 = d - 1" by simp
  have st: "path_step g m path_marker s = (None, AList.update cur path_marker path, c1)"
    by (simp add: s path_step_def all_links_def c1(1))
  have lk: "is_linked g c1 cur"
    using symmetricD [OF sym] c1(2) by (simp add: is_linked_def)
  obtain rest where chc: "ch = cur # rest" using ch(1,2) by (cases ch) auto
  have "path_inv g ?M goal_cell path_marker P0 (None, AList.update cur path_marker path, c1)"
  proof (rule path_invI [where ch = "c1 # ch" and d = "d - 1"])
    show "c1 # ch \<noteq> []" by simp
    show "hd (c1 # ch) = c1" by simp
    show "last (c1 # ch) = goal_cell" using ch(1,3) by simp
    show "linked_chain g (c1 # ch)" using ch(4) lk by (simp add: chc)
    show "chain_marks ?M (d - 1) (c1 # ch)" using ch(5) c1(3) d1 by simp
    show "map_of (AList.update cur path_marker path) =
        (\<lambda>c. if c \<in> set (tl (c1 # ch)) then Some path_marker else P0 c)"
      by (auto simp: update_conv' pm chc fun_eq_iff)
  qed
  moreover have "path_variant ?M (None, AList.update cur path_marker path, c1)
      < path_variant ?M s"
    using mc c1(3) d1 dpos by (simp add: path_variant_def s)
  ultimately show ?thesis by (simp add: st)
qed

lemma spanning_treeD:
  assumes "spanning_tree g"
  shows "symmetric g" and "links_in_grid g" and "connected g"
    and "card (undirected_links g) = size_grid g - 1"
  using assms unfolding spanning_tree_def by blast+

lemma connectedD:
  "connected g \<Longrightarrow> a \<in> set (each_cell g) \<Longrightarrow> b \<in> set (each_cell g) \<Longrightarrow> \<exists>k. walk g a k b"
  unfolding connected_def by blast

lemma shortest_path_general:
  assumes sym: "symmetric g" and lg: "links_in_grid g"
    and start: "start_cell \<in> set (each_cell g)"
    and reach: "walk g start_cell j goal_cell"
  shows "\<exists>dm pm chain.
       DijkstraMarkup g start_cell 0 = Some (Inr dm) \<and>
       ShortestPathMarkup g start_cell goal_cell pmk npm emk = Some (Inr pm) \<and>
       chain \<noteq> [] \<and> hd chain = start_cell \<and> last chain = goal_cell \<and>
       distinct chain \<and> linked_chain g chain \<and>
       int (length chain) = getitem dm goal_cell + 1 \<and>
       (\<forall>c. path_getitem pm c =
          (if c = start_cell \<or> c = goal_cell then Inr emk
           else if c \<in> set chain then Inr pmk
           else if c \<in> set (each_cell g) then Inr npm else Inl 0))"
proof -
  obtain dm where dm: "DijkstraMarkup g start_cell 0 = Some (Inr dm)"
    and dv: "default_value dm = 0"
    and dist: "distances g start_cell (map_of (marks dm))"
    using DijkstraMarkup_distances [OF lg, of start_cell 0] by blast
  let ?M = "map_of (marks dm)"
  let ?path0 = "foldl (\<lambda>path cell. AList.update cell npm path) [] (each_cell g)"
  let ?P0 = "map_of ?path0"
  let ?inv = "path_inv g ?M goal_cell pmk ?P0"
  let ?s0 = "(None, ?path0, goal_cell) :: error option \<times> (cell \<times> 'a) list \<times> cell"
  have P0: "?P0 = (\<lambda>c. if c \<in> set (each_cell g) then Some npm else None)"
    by (simp add: foldl_update_map_of fun_eq_iff)
  obtain dg where dg: "?M goal_cell = Some dg"
    using distances_of_walk [OF dist reach] by blast
  have inv0: "?inv ?s0"
    by (rule path_invI [where ch = "[goal_cell]" and d = dg]) (simp_all add: dg)
  have step: "?inv (path_step g (marks dm) pmk s) \<and>
      path_variant ?M (path_step g (marks dm) pmk s) < path_variant ?M s"
    if "?inv s" "path_cond start_cell s" for s
    using path_step_inv [OF dist sym that] .
  obtain t where t: "while_option (path_cond start_cell) (path_step g (marks dm) pmk) ?s0 = Some t"
    using measure_while_option_Some [where P = ?inv and f = "path_variant ?M", OF step inv0]
    by blast
  have invt: "?inv t"
    using while_option_rule [where P = ?inv, OF _ t inv0] step by blast
  obtain e path cur where tt: "t = (e, path, cur)" by (cases t)
  from invt [unfolded tt] obtain ch d where e: "e = None" and ch: "ch \<noteq> []" "hd ch = cur"
    "last ch = goal_cell" "linked_chain g ch" "chain_marks ?M d ch"
    and pm: "map_of path = (\<lambda>c. if c \<in> set (tl ch) then Some pmk else ?P0 c)"
    by (rule path_invE)
  have "\<not> path_cond start_cell t" using while_option_stop [OF t] .
  then have cur: "cur = start_cell" using e by (simp add: tt path_cond_def)
  have "?M start_cell = Some d" using chain_marks_hd [OF ch(1) ch(5)] ch(2) cur by simp
  then have d: "d = 0" using distances_start [OF dist] by simp
  have "?M goal_cell = Some (int (length ch) - 1)"
    using chain_marks_last [OF ch(1) ch(5)] ch(3) d by simp
  then have len: "int (length ch) = getitem dm goal_cell + 1"
    using getitem_Some [of dm goal_cell] by simp
  let ?pm = "\<lparr>path_marks = AList.update goal_cell emk (AList.update start_cell emk path),
              path_default = default_value dm\<rparr>"
  have spm: "ShortestPathMarkup g start_cell goal_cell pmk npm emk = Some (Inr ?pm)"
    by (simp add: ShortestPathMarkup_def dm t tt e)
  obtain rest where chc: "ch = start_cell # rest" using ch(1,2) cur by (cases ch) auto
  have vals: "path_getitem ?pm c =
      (if c = start_cell \<or> c = goal_cell then Inr emk
       else if c \<in> set ch then Inr pmk
       else if c \<in> set (each_cell g) then Inr npm else Inl 0)" for c
    by (simp add: path_getitem_def update_conv' pm P0 dv chc)
  have "distinct ch" using chain_marks_distinct [OF ch(5)] .
  then show ?thesis
    using dm spm ch(1) ch(2) cur ch(3) ch(4) len vals
    by (intro exI [of _ dm] exI [of _ ?pm] exI [of _ ch]) simp
qed

lemma links_line3:
  "links line3 (0, 0) = [(0, Suc 0)]" "links line3 (0, Suc 0) = [(0, 0), (0, 2)]"
  "links line3 (0, 2) = [(0, Suc 0)]"
  by (simp_all add: line3_def link_def links_set_link add_key_def unlinked_simps)

lemma each_cell_line3: "each_cell line3 = [(0, 0), (0, Suc 0), (0, 2)]"
  by (simp add: each_cell_def each_row_def line3_def dims_link unlinked_simps upt_rec)

lemma dijkstra_loop_line3:
  "while_option dijkstra_cond (dijkstra_step line3)
     (None, setitem (Markup line3 0) (0, 0) 0, [(0, (0, 0))]) =
   Some (None, \<lparr>mgrid = line3, marks = [((0, 0), 0), ((0, Suc 0), 1), ((0, 2), 2)],
                 default_value = 0\<rparr>, [])"
  by (simp add: while_option_step while_option_done dijkstra_cond_def dijkstra_step_def
      dijkstra_relax_def getitem_def setitem_def heappush_def all_links_def links_line3
      Markup_def Let_def)

lemma DijkstraMarkup_line3:
  "DijkstraMarkup line3 (0, 0) 0 =
     Some (Inr \<lparr>mgrid = line3, marks = [((0, 0), 0), ((0, Suc 0), 1), ((0, 2), 2)],
                 default_value = 0\<rparr>)"
  by (simp add: DijkstraMarkup_def dijkstra_loop_line3)

lemma ShortestPathMarkup_line3:
  "ShortestPathMarkup line3 (0, 0) (0, 2) CHR ''*'' CHR '' '' CHR ''^'' =
     Some (Inr \<lparr>path_marks = [((0, 0), CHR ''^''), ((0, Suc 0), CHR ''*''), ((0, 2), CHR ''^'')],
                 path_default = 0\<rparr>)"
  by (simp add: ShortestPathMarkup_def DijkstraMarkup_line3 each_cell_line3
      while_option_step while_option_done path_cond_def path_step_def min_link_def
      all_links_def links_line3 Let_def)

lemma symmetric_line3: "symmetric line3"
  unfolding line3_def by (intro symmetric_link symmetric_unlinked)

lemma line_walk_from:
  assumes "line_grid g n"
  shows "a + k < n \<Longrightarrow> walk g (0, a) k (0, a + k)"
proof (induction k)
  case 0
  then show ?case by (simp add: walk_refl)
next
  case (Suc k)
  then have w: "walk g (0, a) k (0, a + k)" by simp
  have "is_linked g (0, a + k) (0, a + Suc k)"
    using Suc.prems by (simp add: line_gridD(3) [OF assms])
  then show ?case using walk_step [OF w] by blast
qed

lemma line_walk_back:
  assumes "line_grid g n"
  shows "k \<le> a \<Longrightarrow> a < n \<Longrightarrow> walk g (0, a) k (0, a - k)"
proof (induction k)
  case 0
  then show ?case by (simp add: walk_refl)
next
  case (Suc k)
  then have w: "walk g (0, a) k (0, a - k)" by simp
  have "is_linked g (0, a - k) (0, a - Suc k)"
    using Suc.prems by (simp add: line_gridD(3) [OF assms], arith)
  then show ?case using walk_step [OF w] by blast
qed

lemma line_grid_connected:
  assumes "line_grid g n"
  shows "connected g"
  unfolding connected_def
proof (intro ballI)
  fix a b assume "a \<in> set (each_cell g)" "b \<in> set (each_cell g)"
  then obtain i j where a: "a = (0, i)" "i < n" and b: "b = (0, j)" "j < n"
    using each_cell_line [OF line_gridD(1) [OF assms]] line_gridD(2) [OF assms] by auto
  show "\<exists>k. walk g a k b"
  proof (cases "i \<le> j")
    case True
    then have "walk g (0, i) (j - i) (0, i + (j - i))"
      using line_walk_from [OF assms, of i "j - i"] b(2) by simp
    then show ?thesis using True a b by auto
  next
    case False
    then have "walk g (0, i) (i - j) (0, i - (i - j))"
      using line_walk_back [OF assms, of "i - j" i] a(2) by simp
    then show ?thesis using False a b by auto
  qed
qed

lemma undirected_links_line3:
  "undirected_links line3 = {{(0, 0), (0, 1)}, {(0, 1), (0, 2)}}"
  unfolding undirected_links_def is_linked_line3 by (auto simp: insert_commute)

lemma spanning_tree_line3: "spanning_tree line3"
proof -
  have "size_grid line3 = 3"
    by (simp add: size_grid_def line_gridD(1,2) [OF line_grid_line3])
  moreover have "card (undirected_links line3) = 2"
    unfolding undirected_links_line3 by (simp add: doubleton_eq_iff)
  ultimately show ?thesis
    unfolding spanning_tree_def
    using symmetric_line3 line_grid_links_in_grid [OF line_grid_line3]
      line_grid_connected [OF line_grid_line3]
    by simp
qed


section \<open>The claims\<close>

text \<open>
  C2, as stated, has the cells whose value is the path marker form the whole chain from
  start to goal, \<^verbatim>\<open>DijkstraMarkup(grid, start)[goal] + 1\<close> cells. The constructor
  overwrites the marker at both endpoints with the end marker. On the three-cell line,
  from (0,0) to (0,2) with the default markers, the distance of the goal is 2 and the only
  cell left with the path marker is (0,1).
\<close>

theorem shortest_path_markup_counterexample:
  "ShortestPathMarkup line3 (0, 0) (0, 2) CHR ''*'' CHR '' '' CHR ''^'' =
     Some (Inr \<lparr>path_marks = [((0, 0), CHR ''^''), ((0, 1), CHR ''*''), ((0, 2), CHR ''^'')],
                 path_default = 0\<rparr>) \<and>
   DijkstraMarkup line3 (0, 0) 0 =
     Some (Inr \<lparr>mgrid = line3, marks = [((0, 0), 0), ((0, 1), 1), ((0, 2), 2)],
                 default_value = 0\<rparr>)"
  by (simp add: ShortestPathMarkup_line3 DijkstraMarkup_line3)


text \<open>
  C2, amended: for every grid whose link graph is a spanning tree and all cells start and
  goal of it, \<^verbatim>\<open>DijkstraMarkup(grid, start)\<close> and
  \<^verbatim>\<open>ShortestPathMarkup(grid, start, goal)\<close> return; the markup value of start and of goal
  is the end marker; and there is a simple chain of linked cells from start to goal, of
  \<^verbatim>\<open>DijkstraMarkup(grid, start)[goal] + 1\<close> cells, such that the cells of the chain other
  than the two endpoints have the path marker and every other cell of the grid has the
  non-path marker. So, when the path marker differs from the other two markers, the cells
  valued with it are exactly the cells of the chain strictly between start and goal.
\<close>

theorem shortest_path_markup:
  assumes "spanning_tree g" and "start_cell \<in> set (each_cell g)"
    and "goal_cell \<in> set (each_cell g)"
  shows "\<exists>dm pm chain.
       DijkstraMarkup g start_cell 0 = Some (Inr dm) \<and>
       ShortestPathMarkup g start_cell goal_cell path_marker non_path_marker end_marker
         = Some (Inr pm) \<and>
       path_getitem pm start_cell = Inr end_marker \<and>
       path_getitem pm goal_cell = Inr end_marker \<and>
       chain \<noteq> [] \<and> hd chain = start_cell \<and> last chain = goal_cell \<and>
       distinct chain \<and> linked_chain g chain \<and>
       int (length chain) = getitem dm goal_cell + 1 \<and>
       (\<forall>c. path_getitem pm c =
          (if c = start_cell \<or> c = goal_cell then Inr end_marker
           else if c \<in> set chain then Inr path_marker
           else if c \<in> set (each_cell g) then Inr non_path_marker else Inl 0)) \<and>
       (path_marker \<noteq> end_marker \<and> path_marker \<noteq> non_path_marker \<longrightarrow>
          {c. path_getitem pm c = Inr path_marker} = set chain - {start_cell, goal_cell})"
proof -
  note st = spanning_treeD [OF assms(1)]
  obtain j where j: "walk g start_cell j goal_cell"
    using connectedD [OF st(3) assms(2,3)] by blast
  from shortest_path_general [OF st(1) st(2) assms(2) j, of path_marker non_path_marker end_marker]
  obtain dm pm chain where r: "DijkstraMarkup g start_cell 0 = Some (Inr dm)"
    "ShortestPathMarkup g start_cell goal_cell path_marker non_path_marker end_marker
       = Some (Inr pm)"
    "chain \<noteq> []" "hd chain = start_cell" "last chain = goal_cell" "distinct chain"
    "linked_chain g chain" "int (length chain) = getitem dm goal_cell + 1"
    and vals: "\<And>c. path_getitem pm c =
          (if c = start_cell \<or> c = goal_cell then Inr end_marker
           else if c \<in> set chain then Inr path_marker
           else if c \<in> set (each_cell g) then Inr non_path_marker else Inl 0)"
    by blast
  have ends: "path_getitem pm start_cell = Inr end_marker"
    "path_getitem pm goal_cell = Inr end_marker"
    by (simp_all add: vals)
  have inner: "path_marker \<noteq> end_marker \<and> path_marker \<noteq> non_path_marker \<longrightarrow>
      {c. path_getitem pm c = Inr path_marker} = set chain - {start_cell, goal_cell}"
    by (auto simp: vals split: if_splits)
  show ?thesis
    using r ends vals inner
    by (intro exI [of _ dm] exI [of _ pm] exI [of _ chain]) simp
qed

theorem shortest_path_markup_witness:
  "spanning_tree line3 \<and> (0, 0) \<in> set (each_cell line3) \<and> (0, 2) \<in> set (each_cell line3) \<and>
   CHR ''*'' \<noteq> CHR ''^'' \<and> CHR ''*'' \<noteq> CHR '' '' \<and>
   (\<exists>dm pm chain.
       DijkstraMarkup line3 (0, 0) 0 = Some (Inr dm) \<and>
       ShortestPathMarkup line3 (0, 0) (0, 2) CHR ''*'' CHR '' '' CHR ''^'' = Some (Inr pm) \<and>
       path_getitem pm (0, 0) = Inr CHR ''^'' \<and> path_getitem pm (0, 2) = Inr CHR ''^'' \<and>
       hd chain = (0, 0) \<and> last chain = (0, 2) \<and> distinct chain \<and> linked_chain line3 chain \<and>
       int (length chain) = getitem dm (0, 2) + 1 \<and>
       {c. path_getitem pm c = Inr CHR ''*''} = set chain - {(0, 0), (0, 2)})"
proof -
  have a: "(0, 0) \<in> set (each_cell line3)" and b: "(0, 2) \<in> set (each_cell line3)"
    by (simp_all add: each_cell_line3)
  have c: "CHR ''*'' \<noteq> CHR ''^''" "CHR ''*'' \<noteq> CHR '' ''" by simp_all
  from shortest_path_markup [OF spanning_tree_line3 a b, of "CHR ''*''" "CHR '' ''" "CHR ''^''"]
  obtain dm pm chain where r:
    "DijkstraMarkup line3 (0, 0) 0 = Some (Inr dm)"
    "ShortestPathMarkup line3 (0, 0) (0, 2) CHR ''*'' CHR '' '' CHR ''^'' = Some (Inr pm)"
    "path_getitem pm (0, 0) = Inr CHR ''^''" "path_getitem pm (0, 2) = Inr CHR ''^''"
    "hd chain = (0, 0)" "last chain = (0, 2)" "distinct chain" "linked_chain line3 chain"
    "int (length chain) = getitem dm (0, 2) + 1"
    "CHR ''*'' \<noteq> CHR ''^'' \<and> CHR ''*'' \<noteq> CHR '' '' \<longrightarrow>
       {c. path_getitem pm c = Inr CHR ''*''} = set chain - {(0, 0), (0, 2)}"
    by blast
  have "{c. path_getitem pm c = Inr CHR ''*''} = set chain - {(0, 0), (0, 2)}"
    using r(10) c by simp
  then show ?thesis
    using spanning_tree_line3 a b c r(1-9)
    by (intro conjI exI [of _ dm] exI [of _ pm] exI [of _ chain])
qed

text \<open>
  C3: for every \<open>n \<ge> 1\<close> and every \<open>k < n\<close>, on a grid of one row of \<open>n\<close> cells linked in
  an east-west line, \<^verbatim>\<open>DijkstraMarkup(grid, cell_at(0,0))\<close> returns, and the markup value
  of \<^verbatim>\<open>cell_at(0,k)\<close> is \<open>k\<close>.
\<close>

theorem dijkstra_line:
  assumes "line_grid g n" and "k < n"
  shows "cell_at g 0 0 = Some (0, 0) \<and> cell_at g 0 (int k) = Some (0, k) \<and>
         (\<exists>m. DijkstraMarkup g (0, 0) 0 = Some (Inr m) \<and> getitem m (0, k) = int k)"
proof -
  obtain m where m: "DijkstraMarkup g (0, 0) 0 = Some (Inr m)"
    and iff: "\<And>c j. map_of (marks m) c = Some j \<longleftrightarrow> 0 \<le> j \<and> shortest g (0, 0) (nat j) c"
    using DijkstraMarkup_correct [OF line_grid_links_in_grid [OF assms(1)], of "(0, 0)" 0]
    by blast
  have "map_of (marks m) (0, k) = Some (int k)"
    using iff [of "(0, k)" "int k"] line_shortest [OF assms] by simp
  then have "getitem m (0, k) = int k" by (rule getitem_Some)
  moreover have "cell_at g 0 0 = Some (0, 0)" "cell_at g 0 (int k) = Some (0, k)"
    using assms by (simp_all add: cell_at_def line_gridD(1) line_gridD(2))
  ultimately show ?thesis using m by blast
qed


theorem dijkstra_line_witness:
  "line_grid line3 3 \<and> (2::nat) < 3 \<and>
   (\<exists>m. DijkstraMarkup line3 (0, 0) 0 = Some (Inr m) \<and> getitem m (0, 2) = 2)"
  using dijkstra_line [OF line_grid_line3, of 2] line_grid_line3 by simp


lemma binary_tree_3x3_run:
  "fst (binary_tree rnd (unlinked 3 3)) = None \<and>
   link_count (snd (binary_tree rnd (unlinked 3 3))) (0, 2) = 2 \<and>
   is_linked (snd (binary_tree rnd (unlinked 3 3))) (0, 0) (0, 1) \<and>
   is_linked (snd (binary_tree rnd (unlinked 3 3))) (0, 1) (0, 2)"
  by (simp add: binary_tree_def each_cell_3x3 binary_tree_cell_def north_def east_def
      opt_list_def choice1 choice2 link_def links_set_link dims_set_link add_key_def
      unlinked_simps link_count_def is_linked_def Let_def)

lemma binary_tree_3x3_corner:
  "c \<in> set (each_cell (unlinked 3 3)) \<Longrightarrow>
     (north (unlinked 3 3) c = None \<and> east (unlinked 3 3) c = None) = (c = (0, 2))"
  by (auto simp: each_cell_3x3 north_def east_def unlinked_simps)

lemma binary_tree_cell_corner:
  "num_columns g = 3 \<Longrightarrow> binary_tree_cell rnd (g, i) (0, 2) = (None, g, i)"
  by (simp add: binary_tree_cell_def north_def east_def opt_list_def)

text \<open>
  C4, as stated: after \<^verbatim>\<open>binary_tree\<close> on a 3 by 3 grid the top-right cell (0,2) has
  \<^verbatim>\<open>link_count() == 0\<close>, and the cell that links nothing is the top-left corner. The
  code does otherwise, already under the draws that are all 0: (0,1) has no north
  neighbour and links east to (0,2), and (1,2) has no east neighbour and links north to
  (0,2), and \<^verbatim>\<open>link\<close> is bidirectional.
\<close>

theorem binary_tree_3x3_counterexample:
  "link_count (snd (binary_tree zero_rand (unlinked 3 3))) (0, 2) \<noteq> 0"
  using binary_tree_3x3_run [of zero_rand] by simp

text \<open>
  C4, amended: for every sequence of draws, \<^verbatim>\<open>binary_tree\<close> on the unlinked 3 by 3 grid
  raises nothing; the top-right cell (0,2) ends with exactly two links (from (0,1) and from
  (1,2)); the top row is one east-running chain (0,0) - (0,1) - (0,2); the only cell
  with neither a north nor an east neighbour is the top-right corner (0,2), and at it the
  loop body links nothing and makes no draw; at every other cell the loop body makes one
  draw and calls \<^verbatim>\<open>link\<close> on the cell and its north or its east neighbour, and in the
  grid that \<^verbatim>\<open>binary_tree\<close> leaves every other cell is linked to its north or to its east
  neighbour. So the only cell that itself links nothing is (0,2).
\<close>

theorem binary_tree_3x3:
  "fst (binary_tree rnd (unlinked 3 3)) = None \<and>
   link_count (snd (binary_tree rnd (unlinked 3 3))) (0, 2) = 2 \<and>
   is_linked (snd (binary_tree rnd (unlinked 3 3))) (0, 0) (0, 1) \<and>
   is_linked (snd (binary_tree rnd (unlinked 3 3))) (0, 1) (0, 2) \<and>
   (\<forall>c\<in>set (each_cell (unlinked 3 3)).
      (north (unlinked 3 3) c = None \<and> east (unlinked 3 3) c = None) = (c = (0, 2))) \<and>
   (num_columns g = 3 \<longrightarrow> binary_tree_cell rnd (g, i) (0, 2) = (None, g, i)) \<and>
   (\<forall>c\<in>set (each_cell (unlinked 3 3)). c \<noteq> (0, 2) \<longrightarrow> num_columns g = 3 \<longrightarrow>
      (\<exists>n. (north g c = Some n \<or> east g c = Some n) \<and>
           binary_tree_cell rnd (g, i) c = (None, link g c n True, i + 1))) \<and>
   (\<forall>c\<in>set (each_cell (unlinked 3 3)). c \<noteq> (0, 2) \<longrightarrow>
      (\<exists>n. (north (unlinked 3 3) c = Some n \<or> east (unlinked 3 3) c = Some n) \<and>
           is_linked (snd (binary_tree rnd (unlinked 3 3))) c n))"
proof -
  have a: "\<forall>c\<in>set (each_cell (unlinked 3 3)).
      (north (unlinked 3 3) c = None \<and> east (unlinked 3 3) c = None) = (c = (0, 2))"
    by (rule ballI) (rule binary_tree_3x3_corner)
  have b: "num_columns g = 3 \<longrightarrow> binary_tree_cell rnd (g, i) (0, 2) = (None, g, i)"
    by (rule impI) (rule binary_tree_cell_corner)
  have c: "\<forall>c\<in>set (each_cell (unlinked 3 3)). c \<noteq> (0, 2) \<longrightarrow> num_columns g = 3 \<longrightarrow>
      (\<exists>n. (north g c = Some n \<or> east g c = Some n) \<and>
           binary_tree_cell rnd (g, i) c = (None, link g c n True, i + 1))"
  proof (intro ballI impI)
    fix c assume c: "c \<in> set (each_cell (unlinked 3 3))" "c \<noteq> (0, 2)" "num_columns g = 3"
    have "(north g c = None \<and> east g c = None) = (c = (0, 2))"
      using neighbours_3x3 [OF c(1) c(3)] .
    then have "north g c \<noteq> None \<or> east g c \<noteq> None"
      using c(2) by simp
    then show "\<exists>n. (north g c = Some n \<or> east g c = Some n) \<and>
        binary_tree_cell rnd (g, i) c = (None, link g c n True, i + 1)"
      by (rule binary_tree_cell_links)
  qed
  have d: "\<forall>c\<in>set (each_cell (unlinked 3 3)). c \<noteq> (0, 2) \<longrightarrow>
      (\<exists>n. (north (unlinked 3 3) c = Some n \<or> east (unlinked 3 3) c = Some n) \<and>
           is_linked (snd (binary_tree rnd (unlinked 3 3))) c n)"
  proof (intro ballI impI)
    fix c assume c: "c \<in> set (each_cell (unlinked 3 3))" "c \<noteq> (0, 2)"
    have "(north (unlinked 3 3) c = None \<and> east (unlinked 3 3) c = None) = (c = (0, 2))"
      using binary_tree_3x3_corner [OF c(1)] .
    then have "north (unlinked 3 3) c \<noteq> None \<or> east (unlinked 3 3) c \<noteq> None"
      using c(2) by simp
    then show "\<exists>n. (north (unlinked 3 3) c = Some n \<or> east (unlinked 3 3) c = Some n) \<and>
        is_linked (snd (binary_tree rnd (unlinked 3 3))) c n"
      by (rule binary_tree_links [OF c(1)])
  qed
  from binary_tree_3x3_run [of rnd] a b c d show ?thesis
    by (intro conjI) (erule conjE | assumption)+
qed

theorem binary_tree_3x3_witness:
  "link_count (snd (binary_tree zero_rand (unlinked 3 3))) (0, 2) = 2 \<and>
   (0, 0) \<in> set (each_cell (unlinked 3 3)) \<and> (0, 0) \<noteq> (0 :: nat, 2 :: nat) \<and>
   \<not> (north (unlinked 3 3) (0, 0) = None \<and> east (unlinked 3 3) (0, 0) = None) \<and>
   num_columns (unlinked 3 3) = 3 \<and>
   binary_tree_cell zero_rand (unlinked 3 3, 0) (0, 2) = (None, unlinked 3 3, 0) \<and>
   (\<exists>n. (north (unlinked 3 3) (0, 0) = Some n \<or> east (unlinked 3 3) (0, 0) = Some n) \<and>
        binary_tree_cell zero_rand (unlinked 3 3, 0) (0, 0) =
          (None, link (unlinked 3 3) (0, 0) n True, 0 + 1)) \<and>
   (\<exists>n. (north (unlinked 3 3) (0, 0) = Some n \<or> east (unlinked 3 3) (0, 0) = Some n) \<and>
        is_linked (snd (binary_tree zero_rand (unlinked 3 3))) (0, 0) n)"
proof -
  note t = binary_tree_3x3 [of zero_rand "unlinked 3 3" 0]
  have m: "(0, 0) \<in> set (each_cell (unlinked 3 3))" by (simp add: each_cell_3x3)
  have k: "num_columns (unlinked 3 3) = 3" by (simp add: unlinked_simps)
  have n: "(0, 0) \<noteq> (0 :: nat, 2 :: nat)" by simp
  from t have t1: "link_count (snd (binary_tree zero_rand (unlinked 3 3))) (0, 2) = 2"
    by (elim conjE)
  from t have q2: "\<forall>c\<in>set (each_cell (unlinked 3 3)).
      (north (unlinked 3 3) c = None \<and> east (unlinked 3 3) c = None) = (c = (0, 2))"
    by (elim conjE)
  have t2: "\<not> (north (unlinked 3 3) (0, 0) = None \<and> east (unlinked 3 3) (0, 0) = None)"
    using bspec [OF q2 m] by simp
  from t have q3: "num_columns (unlinked 3 3) = 3 \<longrightarrow>
      binary_tree_cell zero_rand (unlinked 3 3, 0) (0, 2) = (None, unlinked 3 3, 0)"
    by (elim conjE)
  have t3: "binary_tree_cell zero_rand (unlinked 3 3, 0) (0, 2) = (None, unlinked 3 3, 0)"
    using q3 k by simp
  from t have q4: "\<forall>c\<in>set (each_cell (unlinked 3 3)). c \<noteq> (0, 2) \<longrightarrow>
      num_columns (unlinked 3 3) = 3 \<longrightarrow>
      (\<exists>n. (north (unlinked 3 3) c = Some n \<or> east (unlinked 3 3) c = Some n) \<and>
           binary_tree_cell zero_rand (unlinked 3 3, 0) c =
             (None, link (unlinked 3 3) c n True, 0 + 1))"
    by (elim conjE)
  have t4: "\<exists>n. (north (unlinked 3 3) (0, 0) = Some n \<or> east (unlinked 3 3) (0, 0) = Some n) \<and>
        binary_tree_cell zero_rand (unlinked 3 3, 0) (0, 0) =
          (None, link (unlinked 3 3) (0, 0) n True, 0 + 1)"
    using bspec [OF q4 m] k by simp
  from t have q5: "\<forall>c\<in>set (each_cell (unlinked 3 3)). c \<noteq> (0, 2) \<longrightarrow>
      (\<exists>n. (north (unlinked 3 3) c = Some n \<or> east (unlinked 3 3) c = Some n) \<and>
           is_linked (snd (binary_tree zero_rand (unlinked 3 3))) c n)"
    by (elim conjE)
  have t5: "\<exists>n. (north (unlinked 3 3) (0, 0) = Some n \<or> east (unlinked 3 3) (0, 0) = Some n) \<and>
        is_linked (snd (binary_tree zero_rand (unlinked 3 3))) (0, 0) n"
    using bspec [OF q5 m] by simp
  show ?thesis using t1 m n t2 k t3 t4 t5 by (intro conjI)
qed

text \<open>
  C5: on a grid as \<^verbatim>\<open>Grid\<close> constructs it, after any script of bidirectional
  \<^verbatim>\<open>link\<close> and \<^verbatim>\<open>unlink\<close> calls (run until the first exception, if any),
  \<^verbatim>\<open>A.is_linked(B) == B.is_linked(A)\<close> for all cells, and a further \<^verbatim>\<open>A.link(B)\<close> makes
  both \<^verbatim>\<open>A.is_linked(B)\<close> and \<^verbatim>\<open>B.is_linked(A)\<close> true. And hence after any generation
  algorithm: run on such a grid, \<^verbatim>\<open>binary_tree\<close> and \<^verbatim>\<open>sidewinder\<close> leave a grid with
  symmetric links, and so do \<^verbatim>\<open>aldous_broder\<close>, \<^verbatim>\<open>wilson\<close>, \<^verbatim>\<open>hybrid\<close> and
  \<^verbatim>\<open>recursive_backtracker\<close> whenever they return.
\<close>

theorem link_symmetry:
  assumes "Grid nr nc = Inr g"
  shows "symmetric (snd (run_ops g ops)) \<and>
         is_linked (link (snd (run_ops g ops)) a b True) a b \<and>
         is_linked (link (snd (run_ops g ops)) a b True) b a \<and>
         symmetric (snd (binary_tree rnd (snd (run_ops g ops)))) \<and>
         symmetric (snd (sidewinder rnd (snd (run_ops g ops)) odds)) \<and>
         (\<forall>r. aldous_broder rnd (snd (run_ops g ops)) = Some r \<longrightarrow> symmetric (snd r)) \<and>
         (\<forall>r. wilson rnd (snd (run_ops g ops)) = Some r \<longrightarrow> symmetric (snd r)) \<and>
         (\<forall>r. hybrid rnd (snd (run_ops g ops)) threshold = Some r \<longrightarrow> symmetric (snd r)) \<and>
         (\<forall>r. recursive_backtracker rnd (snd (run_ops g ops)) start_cell = Some r \<longrightarrow>
              symmetric (snd r))"
proof -
  have g: "g = unlinked (nat nr) (nat nc)" using GridD [OF assms] by simp
  have s: "symmetric (snd (run_ops g ops))"
    unfolding g using run_ops_invariant [OF symmetric_unlinked links_distinct_unlinked] by blast
  note cl = symmetric_link
  have bt: "symmetric (snd (binary_tree rnd (snd (run_ops g ops))))"
    using binary_tree_closed [of symmetric, OF cl s] .
  have sw: "symmetric (snd (sidewinder rnd (snd (run_ops g ops)) odds))"
    using sidewinder_closed [of symmetric, OF cl s] .
  have ab: "\<forall>r. aldous_broder rnd (snd (run_ops g ops)) = Some r \<longrightarrow> symmetric (snd r)"
    using aldous_broder_closed [of symmetric, OF cl s] by blast
  have wi: "\<forall>r. wilson rnd (snd (run_ops g ops)) = Some r \<longrightarrow> symmetric (snd r)"
    using wilson_closed [of symmetric, OF cl s] by blast
  have hy: "\<forall>r. hybrid rnd (snd (run_ops g ops)) threshold = Some r \<longrightarrow> symmetric (snd r)"
    using hybrid_closed [of symmetric, OF cl s] by blast
  have rb: "\<forall>r. recursive_backtracker rnd (snd (run_ops g ops)) start_cell = Some r \<longrightarrow>
      symmetric (snd r)"
    using recursive_backtracker_closed [of symmetric, OF cl s] by blast
  show ?thesis
    using s bt sw ab wi hy rb by (simp add: is_linked_link)
qed

theorem link_symmetry_witness:
  "Grid 1 2 = Inr two_cells \<and>
   symmetric (snd (run_ops two_cells [Link (0, 0) (0, 1), Unlink (0, 1) (0, 0)])) \<and>
   is_linked (link two_cells (0, 0) (0, 1) True) (0, 0) (0, 1) \<and>
   is_linked (link two_cells (0, 0) (0, 1) True) (0, 1) (0, 0) \<and>
   symmetric (snd (binary_tree zero_rand two_cells)) \<and>
   symmetric (snd (sidewinder zero_rand two_cells (1 / 2))) \<and>
   aldous_broder zero_rand two_cells = Some (None, link two_cells (0, 1) (0, 0) True) \<and>
   wilson zero_rand two_cells = Some (None, link two_cells (0, 1) (0, 0) True) \<and>
   hybrid zero_rand two_cells (1 / 2) = Some (None, link two_cells (0, 1) (0, 0) True) \<and>
   recursive_backtracker zero_rand two_cells None =
     Some (None, link two_cells (0, 0) (0, 1) True) \<and>
   symmetric (link two_cells (0, 1) (0, 0) True) \<and>
   symmetric (link two_cells (0, 0) (0, 1) True)"
proof -
  have h: "Grid 1 2 = Inr two_cells" by (simp add: Grid_def two_cells_def)
  note t0 = link_symmetry [OF h, of "[]" "(0, 0)" "(0, 1)" zero_rand "1 / 2" "1 / 2" None]
  note t1 = link_symmetry
    [OF h, of "[Link (0, 0) (0, 1), Unlink (0, 1) (0, 0)]" "(0, 0)" "(0, 1)" zero_rand
      "1 / 2" "1 / 2" None]
  show ?thesis
    using h t0 t1
    by (simp add: aldous_broder_two_cells wilson_two_cells hybrid_two_cells
        recursive_backtracker_two_cells)
qed

text \<open>
  C6: \<^verbatim>\<open>sidewinder(grid, odds=1.0)\<close> raises \<^verbatim>\<open>AssertionError\<close> with the grid as it was
  handed in, and so does every \<^verbatim>\<open>odds\<close> outside \<open>0 \<le> odds < 1\<close>.
\<close>

theorem sidewinder_odds_precondition:
  "sidewinder rnd g 1 = (Some AssertionError, g) \<and>
   (\<not> (0 \<le> odds \<and> odds < 1) \<longrightarrow> sidewinder rnd g odds = (Some AssertionError, g))"
  by (auto simp: sidewinder_def)

theorem sidewinder_odds_precondition_witness:
  "\<not> (0 \<le> (-1 :: real) \<and> (-1 :: real) < 1) \<and>
   sidewinder zero_rand (unlinked 2 2) 1 = (Some AssertionError, unlinked 2 2) \<and>
   sidewinder zero_rand (unlinked 2 2) (-1) = (Some AssertionError, unlinked 2 2)"
  using sidewinder_odds_precondition [of zero_rand "unlinked 2 2" "-1"] by simp

text \<open>
  C7: \<^verbatim>\<open>Markup.max()\<close> and \<^verbatim>\<open>Markup.min()\<close> raise \<^verbatim>\<open>ValueError\<close> (the empty-collection
  error) on an empty table; \<^verbatim>\<open>intensity_colorize\<close> raises \<^verbatim>\<open>ZeroDivisionError\<close>, with
  nothing colorized, when the maximum value of the source markup is 0; and when some cell
  is marked with a positive value, \<^verbatim>\<open>max()\<close>, \<^verbatim>\<open>min()\<close> and \<^verbatim>\<open>intensity_colorize\<close> all
  return.
\<close>

theorem degenerate_extrema:
  "(marks m1 = [] \<longrightarrow> Markup_max m1 = Inl ValueError \<and> Markup_min m1 = Inl ValueError) \<and>
   (0 < num_rows (cgrid cm) \<and> 0 < num_columns (cgrid cm) \<and>
      Markup_max m2 = Inr mx \<and> getitem m2 mx = 0 \<longrightarrow>
      intensity_colorize cm m2 = (Some ZeroDivisionError, cm)) \<and>
   (map_of (marks m3) c = Some v \<and> 0 < v \<longrightarrow>
      (\<exists>a. Markup_max m3 = Inr a) \<and> (\<exists>b. Markup_min m3 = Inr b) \<and>
      fst (intensity_colorize cm3 m3) = None)"
proof (intro conjI impI)
  assume "marks m1 = []"
  then show "Markup_max m1 = Inl ValueError" "Markup_min m1 = Inl ValueError"
    by (simp_all add: Markup_max_def Markup_min_def)
next
  assume a: "0 < num_rows (cgrid cm) \<and> 0 < num_columns (cgrid cm) \<and>
      Markup_max m2 = Inr mx \<and> getitem m2 mx = 0"
  then obtain c cs where "each_cell (cgrid cm) = c # cs"
    using each_cell_nonempty by blast
  then show "intensity_colorize cm m2 = (Some ZeroDivisionError, cm)"
    using a by (simp add: intensity_colorize_def colorize_cell_def)
next
  assume a: "map_of (marks m3) c = Some v \<and> 0 < v"
  then have cin: "c \<in> set (map fst (marks m3))"
    by (metis map_of_eq_None_iff option.distinct(1) set_map)
  then have ne: "map fst (marks m3) \<noteq> []" by auto
  have ex: "\<exists>a. Markup_max m3 = Inr a"
    using max_by_nonempty [OF ne] by (simp add: Markup_max_def)
  show "\<exists>a. Markup_max m3 = Inr a" by (rule ex)
  show "\<exists>b. Markup_min m3 = Inr b"
    using min_by_nonempty [OF ne] by (simp add: Markup_min_def)
  obtain mx where mx: "Markup_max m3 = Inr mx"
    using ex by blast
  have "getitem m3 c \<le> getitem m3 mx"
    using max_by_in [OF mx [unfolded Markup_max_def]] cin by blast
  moreover have "getitem m3 c = v" using a by (simp add: getitem_def)
  ultimately have pos: "getitem m3 mx \<noteq> 0" using a by auto
  have "fst (for_each (colorize_cell (getitem m3 mx) m3) cm3 (each_cell (cgrid cm3))) = None"
    by (rule for_each_no_error) (simp add: colorize_cell_def Let_def pos)
  then show "fst (intensity_colorize cm3 m3) = None"
    by (simp add: intensity_colorize_def mx)
qed

theorem degenerate_extrema_witness:
  "marks (Markup (unlinked 1 2) (0::int)) = [] \<and>
   Markup_max (Markup (unlinked 1 2) (0::int)) = Inl ValueError \<and>
   Markup_max (setitem (Markup (unlinked 1 2) 0) (0, 0) 0) = Inr (0, 0) \<and>
   getitem (setitem (Markup (unlinked 1 2) 0) (0, 0) (0::int)) (0, 0) = 0 \<and>
   intensity_colorize \<lparr>cgrid = unlinked 1 2, cmarks = [], channel = ''R''\<rparr>
       (setitem (Markup (unlinked 1 2) 0) (0, 0) 0) =
     (Some ZeroDivisionError, \<lparr>cgrid = unlinked 1 2, cmarks = [], channel = ''R''\<rparr>) \<and>
   map_of (marks (setitem (setitem (Markup (unlinked 1 2) (0::int)) (0, 0) 0) (0, 1) 1)) (0, 1)
     = Some 1 \<and>
   fst (intensity_colorize \<lparr>cgrid = unlinked 1 2, cmarks = [], channel = ''R''\<rparr>
          (setitem (setitem (Markup (unlinked 1 2) 0) (0, 0) 0) (0, 1) 1)) = None"
  using degenerate_extrema
    [of "Markup (unlinked 1 2) (0::int)"
        "\<lparr>cgrid = unlinked 1 2, cmarks = [], channel = ''R''\<rparr>"
        "setitem (Markup (unlinked 1 2) 0) (0, 0) 0" "(0, 0)"
        "setitem (setitem (Markup (unlinked 1 2) 0) (0, 0) 0) (0, 1) 1" "(0, 1)" 1
        "\<lparr>cgrid = unlinked 1 2, cmarks = [], channel = ''R''\<rparr>"]
  by (simp add: Markup_def setitem_def Markup_max_def getitem_def unlinked_simps)

text \<open>
  C8: for in-bounds coordinates of a cell that was never marked, \<^verbatim>\<open>get_item_at\<close> returns
  Python's \<^verbatim>\<open>None\<close>, while \<^verbatim>\<open>__getitem__\<close> on the same cell returns the default of the
  markup.
\<close>

theorem get_item_at_unmarked:
  assumes "0 \<le> row" and "row < int (num_rows (mgrid m))"
    and "0 \<le> column" and "column < int (num_columns (mgrid m))"
    and "map_of (marks m) (nat row, nat column) = None"
  shows "cell_at (mgrid m) row column = Some (nat row, nat column) \<and>
         get_item_at m row column = Inr None \<and>
         getitem m (nat row, nat column) = default_value m"
  using assms by (simp add: get_item_at_def cell_at_def getitem_def)

theorem get_item_at_unmarked_witness:
  "get_item_at (setitem (Markup (unlinked 2 2) (7::int)) (0, 0) 3) 1 1 = Inr None \<and>
   getitem (setitem (Markup (unlinked 2 2) (7::int)) (0, 0) 3) (1, 1) = 7"
  using get_item_at_unmarked [of 1 "setitem (Markup (unlinked 2 2) (7::int)) (0, 0) 3" 1]
  by (simp add: setitem_def Markup_def unlinked_def)




text \<open>
  C10: when B is in the links of A but A is not in the links of B, \<^verbatim>\<open>A.unlink(B)\<close> raises
  \<^verbatim>\<open>KeyError\<close> after it has removed B from the links of A: at the exception
  \<^verbatim>\<open>A.is_linked(B)\<close> is false, and no other cell's links have changed.
\<close>

theorem unlink_not_atomic:
  assumes "is_linked g a b" and "\<not> is_linked g b a" and "links_distinct g"
  shows "fst (unlink g a b True) = Some KeyError \<and>
         links (snd (unlink g a b True)) a = remove1 b (links g a) \<and>
         \<not> is_linked (snd (unlink g a b True)) a b \<and>
         (\<forall>c. c \<noteq> a \<longrightarrow> links (snd (unlink g a b True)) c = links g c)"
proof -
  have ab: "a \<noteq> b" using assms(1,2) by auto
  have d: "distinct (links g a)" using assms(3) by (rule links_distinctD)
  show ?thesis
    using assms(1,2) ab d by (auto simp: unlink_def del_link_def is_linked_def)
qed

theorem unlink_not_atomic_witness:
  "is_linked (link (unlinked 1 2) (0, 0) (0, 1) False) (0, 0) (0, 1) \<and>
   \<not> is_linked (link (unlinked 1 2) (0, 0) (0, 1) False) (0, 1) (0, 0) \<and>
   links_distinct (link (unlinked 1 2) (0, 0) (0, 1) False) \<and>
   fst (unlink (link (unlinked 1 2) (0, 0) (0, 1) False) (0, 0) (0, 1) True) = Some KeyError \<and>
   \<not> is_linked (snd (unlink (link (unlinked 1 2) (0, 0) (0, 1) False) (0, 0) (0, 1) True))
       (0, 0) (0, 1)"
proof -
  let ?g = "link (unlinked 1 2) (0, 0) (0, 1) False"
  have h1: "is_linked ?g (0, 0) (0, 1)"
    by (simp add: link_def is_linked_set_link)
  have h2: "\<not> is_linked ?g (0, 1) (0, 0)"
    by (simp add: link_def is_linked_def links_set_link unlinked_def)
  have h3: "links_distinct ?g"
    by (simp add: links_distinct_link links_distinct_unlinked)
  show ?thesis
    using h1 h2 h3 unlink_not_atomic [OF h1 h2 h3] by simp
qed

end
